theory Spec2Isabelle
  imports
    Main
    "HOL-Library.Multiset"
    "HOL-Library.Char_ord"
    "HOL-Library.List_Lexorder"
    "HOL-Library.Sublist"
begin

section \<open>JavaScript values used by the filtering and sorting engine\<close>

text \<open>
  The engine is the function \<open>applyFiltersAndSort\<close> of \<^verbatim>\<open>src/src/App.js\<close> (lines 99 to 173).
  It is written in JavaScript, so the embedding makes explicit what the language does
  behind the text of the function: a method call on a missing property throws
  \<open>TypeError\<close>, numbers are IEEE doubles with \<open>NaN\<close> and infinities, arrays are
  objects held by reference, and \<open>Array.prototype.sort\<close> sorts its receiver in place.
\<close>

datatype error = TypeError

text \<open>
  The numbers that occur: \<open>parseInt\<close> of a digit run, the constant \<open>0\<close>, the bounds of
  the salary range, the result of \<open>localeCompare\<close>, and differences of two parsed
  salaries. All of them are integers, infinities or \<open>NaN\<close>. \<open>Num n\<close> is the double
  whose value is the integer \<open>n\<close>.
\<close>

datatype jsnum = NaN | NegInf | Num int | PosInf

text \<open>
  Conversion of a non-negative integer to the nearest double, ties to even
  (\<open>round_magnitude\<close>): below \<open>2^53\<close> every integer is a double; above, the lowest
  \<open>shift_of n\<close> bits are rounded away, and a result of \<open>2^1024\<close> or more is
  \<open>Infinity\<close>. (For a digit run of more than 20 digits ECMAScript lets \<open>parseInt\<close> read
  the digits after the 20th as zeros; the model reads them all.)
\<close>

function shift_of :: "int \<Rightarrow> nat" where
  "shift_of n = (if n < 2 ^ 53 then 0 else Suc (shift_of (n div 2)))"
  by pat_completeness auto
termination
  by (relation "measure nat") auto

declare shift_of.simps [simp del]

definition round_magnitude :: "int \<Rightarrow> jsnum" where
  "round_magnitude n =
     (if n < 2 ^ 53 then Num n
      else let e = shift_of n; q = n div 2 ^ e; r = n mod 2 ^ e;
               q' = (if 2 ^ e < 2 * r \<or> (2 * r = 2 ^ e \<and> odd q) then q + 1 else q)
           in if 2 ^ 1024 \<le> q' * 2 ^ e then PosInf else Num (q' * 2 ^ e))"

fun js_neg :: "jsnum \<Rightarrow> jsnum" where
  "js_neg NaN = NaN"
| "js_neg NegInf = PosInf"
| "js_neg (Num n) = Num (- n)"
| "js_neg PosInf = NegInf"

definition round_int :: "int \<Rightarrow> jsnum" where
  "round_int d = (if 0 \<le> d then round_magnitude d else js_neg (round_magnitude (- d)))"

text \<open>The operator \<open>-\<close> on numbers.\<close>

fun js_sub :: "jsnum \<Rightarrow> jsnum \<Rightarrow> jsnum" where
  "js_sub NaN y = NaN"
| "js_sub NegInf y = (case y of NaN \<Rightarrow> NaN | NegInf \<Rightarrow> NaN | _ \<Rightarrow> NegInf)"
| "js_sub PosInf y = (case y of NaN \<Rightarrow> NaN | PosInf \<Rightarrow> NaN | _ \<Rightarrow> PosInf)"
| "js_sub (Num a) y =
     (case y of NaN \<Rightarrow> NaN | NegInf \<Rightarrow> PosInf | PosInf \<Rightarrow> NegInf
      | Num b \<Rightarrow> round_int (a - b))"

text \<open>
  The operators \<open><\<close> and \<open><=\<close> on numbers; \<open>x >= y\<close> is \<open>js_le y x\<close>. Every
  comparison with \<open>NaN\<close> is false.
\<close>

fun js_less :: "jsnum \<Rightarrow> jsnum \<Rightarrow> bool" where
  "js_less NaN y = False"
| "js_less NegInf y = (case y of NaN \<Rightarrow> False | NegInf \<Rightarrow> False | _ \<Rightarrow> True)"
| "js_less PosInf y = False"
| "js_less (Num a) y =
     (case y of NaN \<Rightarrow> False | NegInf \<Rightarrow> False | PosInf \<Rightarrow> True | Num b \<Rightarrow> a < b)"

fun js_le :: "jsnum \<Rightarrow> jsnum \<Rightarrow> bool" where
  "js_le NaN y = False"
| "js_le NegInf y = (case y of NaN \<Rightarrow> False | _ \<Rightarrow> True)"
| "js_le PosInf y = (case y of PosInf \<Rightarrow> True | _ \<Rightarrow> False)"
| "js_le (Num a) y =
     (case y of NaN \<Rightarrow> False | NegInf \<Rightarrow> False | PosInf \<Rightarrow> True | Num b \<Rightarrow> a \<le> b)"

subsection \<open>Strings\<close>

text \<open>
  A string is the list of the bytes of its UTF-8 encoding, of type \<open>char\<close>: the empty
  string is the empty list, a well-formed string occurs in another as a run of code units
  exactly when its bytes occur there as a run of bytes, and the decimal digits are the
  bytes 48 to 57, which occur in the encoding of no other character. \<open>str_includes\<close> is
  the method \<open>includes\<close>, the search for a contiguous substring; \<open>strip_non_digits\<close>
  is \<^verbatim>\<open>replace(/[^0-9]/g, '')\<close>; \<open>parseInt\<close> reads the leading run of decimal digits
  (the source only passes it strings of digits) and is \<open>NaN\<close> when there is none. The
  method \<open>toLowerCase\<close> follows the case tables of the engine and is a parameter of the
  model, \<open>lower\<close> in the callbacks below.
\<close>

fun starts_with :: "string \<Rightarrow> string \<Rightarrow> bool" where
  "starts_with s [] = True"
| "starts_with [] (c # q) = False"
| "starts_with (d # s) (c # q) = (d = c \<and> starts_with s q)"

fun str_includes :: "string \<Rightarrow> string \<Rightarrow> bool" where
  "str_includes [] q = (q = [])"
| "str_includes (c # s) q = (starts_with (c # s) q \<or> str_includes s q)"

definition is_digit :: "char \<Rightarrow> bool" where
  "is_digit c \<longleftrightarrow> 48 \<le> (of_char c :: int) \<and> (of_char c :: int) \<le> 57"

definition strip_non_digits :: "string \<Rightarrow> string" where
  "strip_non_digits s = filter is_digit s"

definition digit_run_value :: "string \<Rightarrow> int" where
  "digit_run_value ds = foldl (\<lambda>n c. 10 * n + (of_char c - 48)) 0 ds"

definition parseInt :: "string \<Rightarrow> jsnum" where
  "parseInt s =
     (let ds = takeWhile is_digit s
      in if ds = [] then NaN else round_magnitude (digit_run_value ds))"

text \<open>Truthiness of a property that is a string or missing: both the missing property
  and the empty string are falsy.\<close>

definition truthy :: "string option \<Rightarrow> bool" where
  "truthy v = (case v of None \<Rightarrow> False | Some s \<Rightarrow> s \<noteq> [])"

section \<open>The data model\<close>

text \<open>
  A job is a JSON object; \<open>None\<close> is a property that is missing. The documented shape
  has \<open>title\<close>, \<open>description\<close>, \<open>companyName\<close> and \<open>location\<close> present, and
  \<open>department\<close> and \<open>salary\<close> optional. A missing \<open>remote\<close> is falsy, as \<open>false\<close> is.
\<close>

record job =
  title :: "string option"
  description :: "string option"
  department :: "string option"
  companyName :: "string option"
  location :: "string option"
  remote :: bool
  salary :: "string option"

definition well_typed :: "job \<Rightarrow> bool" where
  "well_typed j \<longleftrightarrow>
     title j \<noteq> None \<and> description j \<noteq> None \<and> companyName j \<noteq> None \<and> location j \<noteq> None"

text \<open>
  The filter state. The source reads \<open>filters.companies?.length\<close> and tests
  \<open>filters.salary\<close> before indexing it, so a missing property is \<open>None\<close> here too.
  \<open>remoteOnly\<close> is \<open>filters.remote\<close> and \<open>salaryRange\<close> is \<open>filters.salary\<close>.
\<close>

record filters =
  companies :: "string list option"
  locations :: "string list option"
  departments :: "string list option"
  remoteOnly :: bool
  salaryRange :: "(int \<times> int) option"

definition default_filters :: filters where
  "default_filters =
     \<lparr>companies = Some [], locations = Some [], departments = Some [],
      remoteOnly = False, salaryRange = Some (0, 500000)\<rparr>"

section \<open>The callbacks of the source\<close>

text \<open>
  The expression \<^verbatim>\<open>job.salary ? parseInt(job.salary.replace(/[^0-9]/g, '')) : 0\<close>, which
  the source writes once in the salary filter and twice in each salary comparator.
\<close>

definition parsedSalary :: "job \<Rightarrow> jsnum" where
  "parsedSalary j =
     (if truthy (salary j)
      then (case salary j of None \<Rightarrow> Num 0 | Some s \<Rightarrow> parseInt (strip_non_digits s))
      else Num 0)"

text \<open>Lines 105 to 109: \<open>||\<close> evaluates its right operand only when the left one is
  false, so a missing \<open>description\<close> throws only when the title does not match.\<close>

definition search_cb :: "(string \<Rightarrow> string) \<Rightarrow> string \<Rightarrow> job \<Rightarrow> error + bool" where
  "search_cb lower query j =
     (case title j of
        None \<Rightarrow> Inl TypeError
      | Some t \<Rightarrow>
          if str_includes (lower t) query then Inr True
          else (case description j of
                  None \<Rightarrow> Inl TypeError
                | Some d \<Rightarrow>
                    if str_includes (lower d) query then Inr True
                    else Inr (truthy (department j) \<and>
                              (case department j of
                                 None \<Rightarrow> False
                               | Some dp \<Rightarrow> str_includes (lower dp) query))))"

text \<open>Line 114.\<close>

definition company_cb :: "string list \<Rightarrow> job \<Rightarrow> error + bool" where
  "company_cb cs j = Inr (case companyName j of None \<Rightarrow> False | Some c \<Rightarrow> c \<in> set cs)"

text \<open>Lines 119 to 125.\<close>

definition location_cb :: "(string \<Rightarrow> string) \<Rightarrow> string list \<Rightarrow> job \<Rightarrow> error + bool" where
  "location_cb lower ls j =
     (case location j of
        None \<Rightarrow> Inl TypeError
      | Some l \<Rightarrow>
          Inr (list_ex (\<lambda>filterLocation.
                 str_includes (lower l) (lower filterLocation)) ls))"

text \<open>Line 130.\<close>

definition department_cb :: "string list \<Rightarrow> job \<Rightarrow> error + bool" where
  "department_cb ds j =
     Inr (truthy (department j) \<and>
          (case department j of None \<Rightarrow> False | Some d \<Rightarrow> d \<in> set ds))"

text \<open>Line 135.\<close>

definition remote_cb :: "job \<Rightarrow> error + bool" where
  "remote_cb j = Inr (remote j)"

text \<open>Lines 141 to 144.\<close>

definition salary_cb :: "int \<Rightarrow> int \<Rightarrow> job \<Rightarrow> error + bool" where
  "salary_cb minSalary maxSalary j =
     Inr (js_le (Num minSalary) (parsedSalary j) \<and> js_le (parsedSalary j) (Num maxSalary))"

text \<open>
  The three comparators (lines 151, 154 to 158, 161 to 165). \<open>localeCompare\<close> depends on
  the locale of the engine and is a parameter; called with \<open>undefined\<close> it compares
  with the string \<^verbatim>\<open>undefined\<close>.
\<close>

definition cmp_alphabetical :: "(string \<Rightarrow> string \<Rightarrow> int) \<Rightarrow> job \<Rightarrow> job \<Rightarrow> error + jsnum" where
  "cmp_alphabetical lc a b =
     (case title a of
        None \<Rightarrow> Inl TypeError
      | Some ta \<Rightarrow>
          Inr (Num (lc ta (case title b of None \<Rightarrow> ''undefined'' | Some tb \<Rightarrow> tb))))"

definition cmp_high_low :: "job \<Rightarrow> job \<Rightarrow> error + jsnum" where
  "cmp_high_low a b = Inr (js_sub (parsedSalary b) (parsedSalary a))"

definition cmp_low_high :: "job \<Rightarrow> job \<Rightarrow> error + jsnum" where
  "cmp_low_high a b = Inr (js_sub (parsedSalary a) (parsedSalary b))"

section \<open>What the engine provides\<close>

text \<open>
  \<open>Array.prototype.filter\<close> calls the callback on the elements from left to right and
  builds a new array; the first callback that throws ends the call.
\<close>

fun filterE :: "('a \<Rightarrow> error + bool) \<Rightarrow> 'a list \<Rightarrow> error + 'a list" where
  "filterE cb [] = Inr []"
| "filterE cb (x # xs) =
     (case cb x of
        Inl e \<Rightarrow> Inl e
      | Inr keep \<Rightarrow>
          (case filterE cb xs of
             Inl e \<Rightarrow> Inl e
           | Inr ys \<Rightarrow> Inr (if keep then x # ys else ys)))"

text \<open>
  \<open>Array.prototype.sort\<close> reads the number a comparator returns through its sign, with
  \<open>NaN\<close> read as \<open>+0\<close>.
\<close>

fun sort_order :: "jsnum \<Rightarrow> int" where
  "sort_order NaN = 0"
| "sort_order NegInf = - 1"
| "sort_order (Num n) = sgn n"
| "sort_order PosInf = 1"

text \<open>
  ECMAScript fixes the result of \<open>sort\<close> only for a consistent comparator on the
  elements sorted: one for which "compares equal" is an equivalence and "compares
  less" and "compares greater" are transitive.
\<close>

definition consistent_comparator :: "('a \<Rightarrow> 'a \<Rightarrow> jsnum) \<Rightarrow> 'a set \<Rightarrow> bool" where
  "consistent_comparator c S \<longleftrightarrow>
     (\<forall>a\<in>S. sort_order (c a a) = 0) \<and>
     (\<forall>a\<in>S. \<forall>b\<in>S. sort_order (c a b) = 0 \<longrightarrow> sort_order (c b a) = 0) \<and>
     (\<forall>a\<in>S. \<forall>b\<in>S. \<forall>d\<in>S.
        sort_order (c a b) = 0 \<and> sort_order (c b d) = 0 \<longrightarrow> sort_order (c a d) = 0) \<and>
     (\<forall>a\<in>S. \<forall>b\<in>S. \<forall>d\<in>S.
        sort_order (c a b) < 0 \<and> sort_order (c b d) < 0 \<longrightarrow> sort_order (c a d) < 0) \<and>
     (\<forall>a\<in>S. \<forall>b\<in>S. \<forall>d\<in>S.
        sort_order (c a b) > 0 \<and> sort_order (c b d) > 0 \<longrightarrow> sort_order (c a d) > 0)"

text \<open>
  The builtins whose result depends on the engine are parameters of the model: the
  sorting algorithm, \<open>localeCompare\<close> and \<open>toLowerCase\<close>.
\<close>

record engine =
  engine_sort :: "(job \<Rightarrow> job \<Rightarrow> error + jsnum) \<Rightarrow> job list \<Rightarrow> error + job list"
  engine_localeCompare :: "string \<Rightarrow> string \<Rightarrow> int"
  engine_toLowerCase :: "string \<Rightarrow> string"

text \<open>
  An engine conforms when, for a comparator that does not throw on the elements, \<open>sort\<close>
  returns a permutation of them, which for a consistent comparator is in order (no
  element compares greater than a later one) and stable (the elements that compare
  equal to a given one keep their order); and \<open>localeCompare\<close> is a consistent
  comparator on all strings. For a comparator that is not consistent the order is the
  engine's own.
\<close>

definition stably_sorted :: "(job \<Rightarrow> job \<Rightarrow> jsnum) \<Rightarrow> job list \<Rightarrow> job list \<Rightarrow> bool" where
  "stably_sorted c xs ys \<longleftrightarrow>
     sorted_wrt (\<lambda>a b. sort_order (c a b) \<le> 0) ys \<and>
     (\<forall>a\<in>set xs.
        filter (\<lambda>b. sort_order (c a b) = 0) ys = filter (\<lambda>b. sort_order (c a b) = 0) xs)"

definition conforming :: "engine \<Rightarrow> bool" where
  "conforming eng \<longleftrightarrow>
     (\<forall>cmp c xs.
        (\<forall>a\<in>set xs. \<forall>b\<in>set xs. cmp a b = Inr (c a b)) \<longrightarrow>
        (\<exists>ys. engine_sort eng cmp xs = Inr ys \<and> mset ys = mset xs \<and>
           (consistent_comparator c (set xs) \<longrightarrow> stably_sorted c xs ys))) \<and>
     consistent_comparator (\<lambda>s t. Num (engine_localeCompare eng s t)) UNIV"


section \<open>Arrays in the store\<close>

text \<open>
  Arrays of jobs are objects: the store holds their contents, and a variable holds an
  address. The state of the function is the address in its variable \<open>filteredJobs\<close> and
  the store. The spread \<open>[...jobs]\<close> and \<open>filter\<close> allocate a new array; \<open>sort\<close> writes
  into the array it is called on. A job record is never assigned to, so jobs are values.
\<close>

type_synonym addr = nat
type_synonym heap = "job list list"
type_synonym state = "addr \<times> heap"

definition alloc :: "heap \<Rightarrow> job list \<Rightarrow> state" where
  "alloc h xs = (length h, h @ [xs])"

definition contents :: "state \<Rightarrow> job list" where
  "contents st = snd st ! fst st"

definition spread :: "heap \<Rightarrow> addr \<Rightarrow> error + state" where
  "spread h a = (if a < length h then Inr (alloc h (h ! a)) else Inl TypeError)"

definition array_filter :: "(job \<Rightarrow> error + bool) \<Rightarrow> state \<Rightarrow> error + state" where
  "array_filter cb st =
     (case filterE cb (contents st) of
        Inl e \<Rightarrow> Inl e
      | Inr ys \<Rightarrow> Inr (alloc (snd st) ys))"

definition array_sort :: "engine \<Rightarrow> (job \<Rightarrow> job \<Rightarrow> error + jsnum) \<Rightarrow> state \<Rightarrow> error + state" where
  "array_sort eng cmp st =
     (case engine_sort eng cmp (contents st) of
        Inl e \<Rightarrow> Inl e
      | Inr ys \<Rightarrow> Inr (fst st, (snd st)[fst st := ys]))"

definition thenE :: "error + 'a \<Rightarrow> ('a \<Rightarrow> error + 'b) \<Rightarrow> error + 'b" where
  "thenE m f = (case m of Inl e \<Rightarrow> Inl e | Inr x \<Rightarrow> f x)"

section \<open>The function \<open>applyFiltersAndSort\<close>\<close>

text \<open>Lines 103 to 110.\<close>

definition apply_search :: "engine \<Rightarrow> string \<Rightarrow> state \<Rightarrow> error + state" where
  "apply_search eng searchQuery st =
     (if searchQuery \<noteq> []
      then array_filter
             (search_cb (engine_toLowerCase eng) (engine_toLowerCase eng searchQuery)) st
      else Inr st)"

text \<open>Lines 113 to 115: \<open>undefined > 0\<close> is false.\<close>

definition apply_company :: "filters \<Rightarrow> state \<Rightarrow> error + state" where
  "apply_company f st =
     (case companies f of
        None \<Rightarrow> Inr st
      | Some cs \<Rightarrow> if 0 < length cs then array_filter (company_cb cs) st else Inr st)"

text \<open>Lines 118 to 126.\<close>

definition apply_location :: "engine \<Rightarrow> filters \<Rightarrow> state \<Rightarrow> error + state" where
  "apply_location eng f st =
     (case locations f of
        None \<Rightarrow> Inr st
      | Some ls \<Rightarrow>
          if 0 < length ls then array_filter (location_cb (engine_toLowerCase eng) ls) st
          else Inr st)"

text \<open>Lines 129 to 131.\<close>

definition apply_department :: "filters \<Rightarrow> state \<Rightarrow> error + state" where
  "apply_department f st =
     (case departments f of
        None \<Rightarrow> Inr st
      | Some ds \<Rightarrow> if 0 < length ds then array_filter (department_cb ds) st else Inr st)"

text \<open>Lines 134 to 136.\<close>

definition apply_remote :: "filters \<Rightarrow> state \<Rightarrow> error + state" where
  "apply_remote f st = (if remoteOnly f then array_filter remote_cb st else Inr st)"

text \<open>Lines 139 to 145.\<close>

definition apply_salary :: "filters \<Rightarrow> state \<Rightarrow> error + state" where
  "apply_salary f st =
     (case salaryRange f of
        None \<Rightarrow> Inr st
      | Some (minSalary, maxSalary) \<Rightarrow>
          if 0 < minSalary \<or> maxSalary < 500000
          then array_filter (salary_cb minSalary maxSalary) st
          else Inr st)"

text \<open>Lines 148 to 170.\<close>

definition apply_sort :: "engine \<Rightarrow> string \<Rightarrow> state \<Rightarrow> error + state" where
  "apply_sort eng sortOption st =
     (if sortOption = [] then Inr st
      else if sortOption = ''alphabetical''
        then array_sort eng (cmp_alphabetical (engine_localeCompare eng)) st
      else if sortOption = ''salary-high-low'' then array_sort eng cmp_high_low st
      else if sortOption = ''salary-low-high'' then array_sort eng cmp_low_high st
      else Inr st)"

text \<open>
  The whole function: \<open>jobs\<close> is the address of the input array in the store \<open>h\<close>; the
  result is the address returned and the store after the call, or the error thrown.
\<close>

definition applyFiltersAndSort ::
    "engine \<Rightarrow> heap \<Rightarrow> addr \<Rightarrow> filters \<Rightarrow> string \<Rightarrow> string \<Rightarrow> error + state" where
  "applyFiltersAndSort eng h jobs f searchQuery sortOption =
     thenE (spread h jobs) (\<lambda>s0.
     thenE (apply_search eng searchQuery s0) (\<lambda>s1.
     thenE (apply_company f s1) (\<lambda>s2.
     thenE (apply_location eng f s2) (\<lambda>s3.
     thenE (apply_department f s3) (\<lambda>s4.
     thenE (apply_remote f s4) (\<lambda>s5.
     thenE (apply_salary f s5) (\<lambda>s6.
     apply_sort eng sortOption s6)))))))"

text \<open>The list the caller reads through the returned address.\<close>

definition returned :: "error + state \<Rightarrow> error + job list" where
  "returned res = (case res of Inl e \<Rightarrow> Inl e | Inr st \<Rightarrow> Inr (contents st))"

section \<open>A reference engine\<close>

text \<open>
  One engine to run the model on: insertion sort, which moves an element past those it
  compares greater than, the comparison of strings by code units in the place of
  \<open>localeCompare\<close>, and in the place of \<open>toLowerCase\<close> the folding of the letters
  \<open>A\<close> to \<open>Z\<close>, which is what \<open>toLowerCase\<close> does on a string of ASCII characters.
\<close>

fun insertE :: "(job \<Rightarrow> job \<Rightarrow> error + jsnum) \<Rightarrow> job \<Rightarrow> job list \<Rightarrow> error + job list" where
  "insertE cmp x [] = Inr [x]"
| "insertE cmp x (y # ys) =
     (case cmp x y of
        Inl e \<Rightarrow> Inl e
      | Inr v \<Rightarrow>
          if 0 < sort_order v
          then (case insertE cmp x ys of Inl e \<Rightarrow> Inl e | Inr zs \<Rightarrow> Inr (y # zs))
          else Inr (x # y # ys))"

fun insertion_sort :: "(job \<Rightarrow> job \<Rightarrow> error + jsnum) \<Rightarrow> job list \<Rightarrow> error + job list" where
  "insertion_sort cmp [] = Inr []"
| "insertion_sort cmp (x # xs) =
     (case insertion_sort cmp xs of Inl e \<Rightarrow> Inl e | Inr ys \<Rightarrow> insertE cmp x ys)"

definition compare_code_units :: "string \<Rightarrow> string \<Rightarrow> int" where
  "compare_code_units s t = (if s < t then - 1 else if s = t then 0 else 1)"

definition lower_char :: "char \<Rightarrow> char" where
  "lower_char c =
     (let n = (of_char c :: int) in if 65 \<le> n \<and> n \<le> 90 then char_of (n + 32) else c)"

definition fold_ascii_letters :: "string \<Rightarrow> string" where
  "fold_ascii_letters s = map lower_char s"

definition reference_engine :: engine where
  "reference_engine =
     \<lparr>engine_sort = insertion_sort, engine_localeCompare = compare_code_units,
      engine_toLowerCase = fold_ascii_letters\<rparr>"

section \<open>A second engine: binary insertion\<close>

text \<open>
  Binary insertion sort: the sorted part starts as the initial run of the array (the
  longest prefix that does not descend, or that strictly descends and is then reversed),
  and each further element is put where a binary search of the sorted part ends. The
  sorts of the TimSort family, V8's \<open>Array.prototype.sort\<close> among them, sort a short
  array this way.
\<close>

fun extend_run ::
    "(job \<Rightarrow> job \<Rightarrow> error + jsnum) \<Rightarrow> bool \<Rightarrow> job \<Rightarrow> job list \<Rightarrow> error + nat" where
  "extend_run cmp descending previous [] = Inr 0"
| "extend_run cmp descending previous (x # xs) =
     (case cmp x previous of
        Inl e \<Rightarrow> Inl e
      | Inr v \<Rightarrow>
          if (if descending then 0 \<le> sort_order v else sort_order v < 0) then Inr 0
          else (case extend_run cmp descending x xs of
                  Inl e \<Rightarrow> Inl e
                | Inr n \<Rightarrow> Inr (Suc n)))"

function binary_search ::
    "(job \<Rightarrow> job \<Rightarrow> error + jsnum) \<Rightarrow> job \<Rightarrow> job list \<Rightarrow> nat \<Rightarrow> nat \<Rightarrow> error + nat" where
  "binary_search cmp pivot ps left right =
     (if left < right
      then let mid = left + (right - left) div 2
           in (case cmp pivot (ps ! mid) of
                 Inl e \<Rightarrow> Inl e
               | Inr v \<Rightarrow>
                   if sort_order v < 0 then binary_search cmp pivot ps left mid
                   else binary_search cmp pivot ps (mid + 1) right)
      else Inr left)"
  by pat_completeness auto
termination
  by (relation "measure (\<lambda>(cmp, pivot, ps, left, right). right - left)") auto

declare binary_search.simps [simp del]

fun insert_rest ::
    "(job \<Rightarrow> job \<Rightarrow> error + jsnum) \<Rightarrow> job list \<Rightarrow> job list \<Rightarrow> error + job list" where
  "insert_rest cmp ps [] = Inr ps"
| "insert_rest cmp ps (x # xs) =
     (case binary_search cmp x ps 0 (length ps) of
        Inl e \<Rightarrow> Inl e
      | Inr i \<Rightarrow> insert_rest cmp (take i ps @ x # drop i ps) xs)"

fun binary_insertion_sort ::
    "(job \<Rightarrow> job \<Rightarrow> error + jsnum) \<Rightarrow> job list \<Rightarrow> error + job list" where
  "binary_insertion_sort cmp [] = Inr []"
| "binary_insertion_sort cmp [x] = Inr [x]"
| "binary_insertion_sort cmp (x # y # rest) =
     (case cmp y x of
        Inl e \<Rightarrow> Inl e
      | Inr v \<Rightarrow>
          (case extend_run cmp (sort_order v < 0) y rest of
             Inl e \<Rightarrow> Inl e
           | Inr n \<Rightarrow>
               insert_rest cmp
                 (if sort_order v < 0 then rev (x # y # take n rest) else x # y # take n rest)
                 (drop n rest)))"

definition binary_insertion_engine :: engine where
  "binary_insertion_engine =
     \<lparr>engine_sort = binary_insertion_sort, engine_localeCompare = compare_code_units,
      engine_toLowerCase = fold_ascii_letters\<rparr>"

section \<open>The predicates of the six filter blocks\<close>

text \<open>
  A job satisfies a block when the block is inactive (its guard is false) or the block's
  callback returns \<open>true\<close> on the job. \<open>satisfies\<close> is the conjunction over the six
  blocks.
\<close>

definition search_ok :: "engine \<Rightarrow> string \<Rightarrow> job \<Rightarrow> bool" where
  "search_ok eng searchQuery j \<longleftrightarrow>
     (if searchQuery \<noteq> []
      then search_cb (engine_toLowerCase eng) (engine_toLowerCase eng searchQuery) j = Inr True
      else True)"

definition company_ok :: "filters \<Rightarrow> job \<Rightarrow> bool" where
  "company_ok f j \<longleftrightarrow>
     (case companies f of
        None \<Rightarrow> True
      | Some cs \<Rightarrow> if 0 < length cs then company_cb cs j = Inr True else True)"

definition location_ok :: "engine \<Rightarrow> filters \<Rightarrow> job \<Rightarrow> bool" where
  "location_ok eng f j \<longleftrightarrow>
     (case locations f of
        None \<Rightarrow> True
      | Some ls \<Rightarrow>
          if 0 < length ls then location_cb (engine_toLowerCase eng) ls j = Inr True
          else True)"

definition department_ok :: "filters \<Rightarrow> job \<Rightarrow> bool" where
  "department_ok f j \<longleftrightarrow>
     (case departments f of
        None \<Rightarrow> True
      | Some ds \<Rightarrow> if 0 < length ds then department_cb ds j = Inr True else True)"

definition remote_ok :: "filters \<Rightarrow> job \<Rightarrow> bool" where
  "remote_ok f j \<longleftrightarrow> (if remoteOnly f then remote_cb j = Inr True else True)"

definition salary_ok :: "filters \<Rightarrow> job \<Rightarrow> bool" where
  "salary_ok f j \<longleftrightarrow>
     (case salaryRange f of
        None \<Rightarrow> True
      | Some (minSalary, maxSalary) \<Rightarrow>
          if 0 < minSalary \<or> maxSalary < 500000
          then salary_cb minSalary maxSalary j = Inr True
          else True)"

definition satisfies :: "engine \<Rightarrow> filters \<Rightarrow> string \<Rightarrow> job \<Rightarrow> bool" where
  "satisfies eng f searchQuery j \<longleftrightarrow>
     search_ok eng searchQuery j \<and> company_ok f j \<and> location_ok eng f j \<and>
     department_ok f j \<and> remote_ok f j \<and> salary_ok f j"

section \<open>Each block filters a fresh array\<close>

text \<open>
  \<open>fresh_in h st\<close>: the array the variable refers to was allocated after the store
  \<open>h\<close> was taken, and the arrays of \<open>h\<close> are as they were.
\<close>

definition fresh_in :: "heap \<Rightarrow> state \<Rightarrow> bool" where
  "fresh_in h st \<longleftrightarrow>
     length h \<le> fst st \<and> fst st < length (snd st) \<and> take (length h) (snd st) = h"

definition returns_bool :: "(job \<Rightarrow> error + bool) \<Rightarrow> job \<Rightarrow> bool" where
  "returns_bool cb j \<longleftrightarrow> (cb j = Inr True \<or> cb j = Inr False)"

lemma filterE_total:
  "list_all (returns_bool cb) xs \<Longrightarrow> filterE cb xs = Inr (filter (\<lambda>x. cb x = Inr True) xs)"
  by (induction xs) (auto simp: returns_bool_def)

lemma search_cb_total: "well_typed j \<Longrightarrow> returns_bool (search_cb lower q) j"
  by (auto simp: well_typed_def returns_bool_def search_cb_def split: option.splits)

lemma company_cb_total: "returns_bool (company_cb cs) j"
  by (auto simp: returns_bool_def company_cb_def)

lemma location_cb_total: "well_typed j \<Longrightarrow> returns_bool (location_cb lower ls) j"
  by (auto simp: well_typed_def returns_bool_def location_cb_def split: option.splits)

lemma department_cb_total: "returns_bool (department_cb ds) j"
  by (auto simp: returns_bool_def department_cb_def)

lemma remote_cb_total: "returns_bool remote_cb j"
  by (auto simp: returns_bool_def remote_cb_def)

lemma salary_cb_total: "returns_bool (salary_cb lo hi) j"
  by (auto simp: returns_bool_def salary_cb_def)

lemma contents_alloc: "contents (alloc h xs) = xs"
  by (simp add: contents_def alloc_def)

lemma fresh_in_alloc: "fresh_in h0 st \<Longrightarrow> fresh_in h0 (alloc (snd st) xs)"
  by (auto simp: fresh_in_def alloc_def)

lemma fresh_in_spread: "fresh_in h (alloc h xs)"
  by (simp add: fresh_in_def alloc_def)

lemma array_filter_total:
  assumes "list_all (returns_bool cb) (contents st)"
  shows "array_filter cb st = Inr (alloc (snd st) (filter (\<lambda>x. cb x = Inr True) (contents st)))"
  using assms by (simp add: array_filter_def filterE_total)

lemma list_all_filter: "list_all P xs \<Longrightarrow> list_all P (filter Q xs)"
  by (induction xs) auto

text \<open>What one block of the function does to a state whose array holds well-typed jobs.\<close>

definition filters_to :: "heap \<Rightarrow> (job \<Rightarrow> bool) \<Rightarrow> state \<Rightarrow> error + state \<Rightarrow> bool" where
  "filters_to h0 P st res \<longleftrightarrow>
     (\<exists>st'. res = Inr st' \<and> fresh_in h0 st' \<and> contents st' = filter P (contents st))"

lemma filters_to_skip: "fresh_in h0 st \<Longrightarrow> (\<And>x. P x) \<Longrightarrow> filters_to h0 P st (Inr st)"
  by (simp add: filters_to_def)

lemma filters_to_filter:
  assumes "fresh_in h0 st" "list_all (returns_bool cb) (contents st)"
    and "\<And>x. P x \<longleftrightarrow> cb x = Inr True"
  shows "filters_to h0 P st (array_filter cb st)"
proof -
  have "P = (\<lambda>x. cb x = Inr True)"
    using assms(3) by auto
  then show ?thesis
    using assms(1,2) by (simp add: filters_to_def array_filter_total fresh_in_alloc contents_alloc)
qed

lemma wt_imp: "list_all well_typed xs \<Longrightarrow> (\<And>j. well_typed j \<Longrightarrow> returns_bool cb j) \<Longrightarrow> list_all (returns_bool cb) xs"
  by (induction xs) auto

lemma apply_search_filters:
  assumes "fresh_in h0 st" "list_all well_typed (contents st)"
  shows "filters_to h0 (search_ok eng q) st (apply_search eng q st)"
proof (cases "q = []")
  case True
  then show ?thesis using assms by (simp add: apply_search_def filters_to_skip search_ok_def)
next
  case False
  have "list_all (returns_bool (search_cb (engine_toLowerCase eng) (engine_toLowerCase eng q))) (contents st)"
    using assms(2) by (rule wt_imp) (rule search_cb_total)
  then show ?thesis
    using False assms(1) by (simp add: apply_search_def search_ok_def filters_to_filter)
qed

lemma apply_company_filters:
  assumes "fresh_in h0 st"
  shows "filters_to h0 (company_ok f) st (apply_company f st)"
proof (cases "companies f")
  case None
  then show ?thesis using assms by (simp add: apply_company_def filters_to_skip company_ok_def)
next
  case (Some cs)
  have "list_all (returns_bool (company_cb cs)) (contents st)"
    by (simp add: list_all_iff company_cb_total)
  then show ?thesis
    using Some assms by (cases "cs = []") (simp_all add: apply_company_def company_ok_def filters_to_filter filters_to_skip)
qed

lemma apply_location_filters:
  assumes "fresh_in h0 st" "list_all well_typed (contents st)"
  shows "filters_to h0 (location_ok eng f) st (apply_location eng f st)"
proof (cases "locations f")
  case None
  then show ?thesis using assms by (simp add: apply_location_def filters_to_skip location_ok_def)
next
  case (Some ls)
  have "list_all (returns_bool (location_cb (engine_toLowerCase eng) ls)) (contents st)"
    using assms(2) by (rule wt_imp) (rule location_cb_total)
  then show ?thesis
    using Some assms(1) by (cases "ls = []") (simp_all add: apply_location_def location_ok_def filters_to_filter filters_to_skip)
qed

lemma apply_department_filters:
  assumes "fresh_in h0 st"
  shows "filters_to h0 (department_ok f) st (apply_department f st)"
proof (cases "departments f")
  case None
  then show ?thesis using assms by (simp add: apply_department_def filters_to_skip department_ok_def)
next
  case (Some ds)
  have "list_all (returns_bool (department_cb ds)) (contents st)"
    by (simp add: list_all_iff department_cb_total)
  then show ?thesis
    using Some assms by (cases "ds = []") (simp_all add: apply_department_def department_ok_def filters_to_filter filters_to_skip)
qed

lemma apply_remote_filters:
  assumes "fresh_in h0 st"
  shows "filters_to h0 (remote_ok f) st (apply_remote f st)"
proof -
  have "list_all (returns_bool remote_cb) (contents st)"
    by (simp add: list_all_iff remote_cb_total)
  then show ?thesis
    using assms by (cases "remoteOnly f") (simp_all add: apply_remote_def remote_ok_def filters_to_filter filters_to_skip)
qed

lemma apply_salary_filters:
  assumes "fresh_in h0 st"
  shows "filters_to h0 (salary_ok f) st (apply_salary f st)"
proof (cases "salaryRange f")
  case None
  then show ?thesis using assms by (simp add: apply_salary_def filters_to_skip salary_ok_def)
next
  case (Some range)
  obtain lo hi where range: "range = (lo, hi)" by (cases range)
  have "list_all (returns_bool (salary_cb lo hi)) (contents st)"
    by (simp add: list_all_iff salary_cb_total)
  then show ?thesis
    using Some range assms
    by (cases "0 < lo \<or> hi < 500000") (simp_all add: apply_salary_def salary_ok_def filters_to_filter filters_to_skip)
qed


section \<open>The blocks in any order\<close>

text \<open>
  The function runs the six blocks in the order \<open>implemented_order\<close>; \<open>run_stages\<close> runs
  them in a given order.
\<close>

datatype stage = Search | Company | Location | Department | Remote | Salary

fun run_stage :: "engine \<Rightarrow> filters \<Rightarrow> string \<Rightarrow> stage \<Rightarrow> state \<Rightarrow> error + state" where
  "run_stage eng f q Search = apply_search eng q"
| "run_stage eng f q Company = apply_company f"
| "run_stage eng f q Location = apply_location eng f"
| "run_stage eng f q Department = apply_department f"
| "run_stage eng f q Remote = apply_remote f"
| "run_stage eng f q Salary = apply_salary f"

definition run_stages :: "engine \<Rightarrow> filters \<Rightarrow> string \<Rightarrow> stage list \<Rightarrow> state \<Rightarrow> error + state" where
  "run_stages eng f q order st = foldl (\<lambda>m s. thenE m (run_stage eng f q s)) (Inr st) order"

definition implemented_order :: "stage list" where
  "implemented_order = [Search, Company, Location, Department, Remote, Salary]"

fun stage_ok :: "engine \<Rightarrow> filters \<Rightarrow> string \<Rightarrow> stage \<Rightarrow> job \<Rightarrow> bool" where
  "stage_ok eng f q Search = search_ok eng q"
| "stage_ok eng f q Company = company_ok f"
| "stage_ok eng f q Location = location_ok eng f"
| "stage_ok eng f q Department = department_ok f"
| "stage_ok eng f q Remote = remote_ok f"
| "stage_ok eng f q Salary = salary_ok f"

lemma run_stage_filters:
  assumes "fresh_in h0 st" "list_all well_typed (contents st)"
  shows "filters_to h0 (stage_ok eng f q s) st (run_stage eng f q s st)"
  using assms
  by (cases s)
    (simp_all add: apply_search_filters apply_company_filters apply_location_filters
      apply_department_filters apply_remote_filters apply_salary_filters)

lemma run_stages_snoc:
  "run_stages eng f q (order @ [s]) st = thenE (run_stages eng f q order st) (run_stage eng f q s)"
  by (simp add: run_stages_def)

lemma run_stages_filters:
  assumes "fresh_in h0 st" "list_all well_typed (contents st)"
  shows "filters_to h0 (\<lambda>j. list_all (\<lambda>s. stage_ok eng f q s j) order) st (run_stages eng f q order st)"
proof (induction order rule: rev_induct)
  case Nil
  show ?case using assms(1) by (simp add: run_stages_def filters_to_def)
next
  case (snoc s order)
  let ?P = "\<lambda>j. list_all (\<lambda>s. stage_ok eng f q s j) order"
  from snoc obtain st1 where st1: "run_stages eng f q order st = Inr st1" "fresh_in h0 st1"
    "contents st1 = filter ?P (contents st)"
    by (auto simp: filters_to_def)
  have "list_all well_typed (contents st1)"
    using assms(2) st1(3) by (simp add: list_all_filter)
  with st1(2) have "filters_to h0 (stage_ok eng f q s) st1 (run_stage eng f q s st1)"
    by (rule run_stage_filters)
  then obtain st2 where st2: "run_stage eng f q s st1 = Inr st2" "fresh_in h0 st2"
    "contents st2 = filter (stage_ok eng f q s) (contents st1)"
    by (auto simp: filters_to_def)
  have "filter (stage_ok eng f q s) (filter ?P (contents st)) =
        filter (\<lambda>j. list_all (\<lambda>s. stage_ok eng f q s j) (order @ [s])) (contents st)"
    by (simp add: conj_commute)
  with st1 st2 show ?case
    by (simp add: filters_to_def run_stages_snoc thenE_def)
qed

lemma applyFiltersAndSort_stages:
  "applyFiltersAndSort eng h jobs f q sortOption =
     thenE (thenE (spread h jobs) (run_stages eng f q implemented_order)) (apply_sort eng sortOption)"
  by (simp add: applyFiltersAndSort_def run_stages_def implemented_order_def thenE_def
      split: sum.splits)

lemma satisfies_stages:
  "satisfies eng f q j \<longleftrightarrow> list_all (\<lambda>s. stage_ok eng f q s j) implemented_order"
  by (simp add: satisfies_def implemented_order_def)

lemma filtered_before_sort:
  assumes "jobs < length h" "list_all well_typed (h ! jobs)" "set order = set implemented_order"
  shows "\<exists>st. thenE (spread h jobs) (run_stages eng f q order) = Inr st \<and> fresh_in h st \<and>
           contents st = filter (satisfies eng f q) (h ! jobs)"
proof -
  let ?st0 = "alloc h (h ! jobs)"
  have "fresh_in h ?st0" "list_all well_typed (contents ?st0)"
    using assms(2) by (simp_all add: fresh_in_spread contents_alloc)
  then have "filters_to h (\<lambda>j. list_all (\<lambda>s. stage_ok eng f q s j) order) ?st0
               (run_stages eng f q order ?st0)"
    by (rule run_stages_filters)
  moreover have "(\<lambda>j. list_all (\<lambda>s. stage_ok eng f q s j) order) = satisfies eng f q"
    using assms(3) by (auto simp: satisfies_stages list_all_iff)
  ultimately show ?thesis
    using assms(1) by (simp add: filters_to_def spread_def thenE_def contents_alloc)
qed

section \<open>The sign of a rounded difference\<close>

text \<open>
  Rounding an integer to a double keeps its sign: the comparators \<open>salaryA - salaryB\<close> and
  \<open>salaryB - salaryA\<close> order two finite salaries as the integers are ordered.
\<close>

lemma shift_of_bound: "1 \<le> n \<Longrightarrow> 2 ^ shift_of n \<le> n"
proof (induction n rule: shift_of.induct)
  case (1 n)
  show ?case
  proof (cases "n < 2 ^ 53")
    case True
    then have "shift_of n = 0" by (subst shift_of.simps) simp
    with "1.prems" show ?thesis by simp
  next
    case False
    then have eq: "shift_of n = Suc (shift_of (n div 2))" by (subst shift_of.simps) simp
    from False have "1 \<le> n div 2" by simp
    with 1 False have "2 ^ shift_of (n div 2) \<le> n div 2" by simp
    then have "2 * 2 ^ shift_of (n div 2) \<le> n" by linarith
    with eq show ?thesis by simp
  qed
qed


lemma sort_order_values: "sort_order x = - 1 \<or> sort_order x = 0 \<or> sort_order x = 1"
  by (cases x) (simp_all add: sgn_if)

lemma round_magnitude_small: "n < 2 ^ 53 \<Longrightarrow> round_magnitude n = Num n"
  unfolding round_magnitude_def by (rule if_P)

lemma round_magnitude_large:
  assumes "\<not> n < 2 ^ 53"
  shows "round_magnitude n = PosInf \<or>
         round_magnitude n = Num (n div 2 ^ shift_of n * 2 ^ shift_of n) \<or>
         round_magnitude n = Num ((n div 2 ^ shift_of n + 1) * 2 ^ shift_of n)"
proof -
  define e where "e = shift_of n"
  define q where "q = n div 2 ^ e"
  define up where "up \<longleftrightarrow> 2 ^ e < 2 * (n mod 2 ^ e) \<or> (2 * (n mod 2 ^ e) = 2 ^ e \<and> odd q)"
  define q' where "q' = (if up then q + 1 else q)"
  have "round_magnitude n = (if 2 ^ 1024 \<le> q' * 2 ^ e then PosInf else Num (q' * 2 ^ e))"
    unfolding round_magnitude_def Let_def q'_def up_def q_def e_def
    using assms by (rule if_not_P)
  then have "round_magnitude n = PosInf \<or> round_magnitude n = Num (q' * 2 ^ e)"
    by (cases "2 ^ 1024 \<le> q' * 2 ^ e") (simp_all only: if_True if_False simp_thms)
  then show ?thesis
    unfolding q'_def q_def e_def by (cases up) (simp_all only: if_True if_False, blast+)
qed

lemma round_magnitude_positive:
  assumes "0 < n"
  shows "0 < sort_order (round_magnitude n)"
proof (cases "n < 2 ^ 53")
  case True
  then have "round_magnitude n = Num n" by (rule round_magnitude_small)
  with assms show ?thesis by simp
next
  case False
  define e where "e = shift_of n"
  define q where "q = n div 2 ^ e"
  have "2 ^ e \<le> n" unfolding e_def using assms by (intro shift_of_bound) simp
  then have "2 ^ e div 2 ^ e \<le> n div (2::int) ^ e"
    by (rule zdiv_mono1) simp
  then have "1 \<le> q" unfolding q_def by simp
  then have pos: "0 < q * 2 ^ e" "0 < (q + 1) * 2 ^ e" by simp_all
  from round_magnitude_large [OF False]
  have "round_magnitude n = PosInf \<or> round_magnitude n = Num (q * 2 ^ e) \<or>
        round_magnitude n = Num ((q + 1) * 2 ^ e)"
    unfolding q_def e_def .
  with pos show ?thesis by auto
qed

lemma round_magnitude_zero: "round_magnitude 0 = Num 0"
  by (rule round_magnitude_small) simp

lemma sort_order_js_neg: "sort_order (js_neg x) = - sort_order x"
  by (cases x) simp_all

lemma sort_order_round_int: "sort_order (round_int d) = sgn d"
proof -
  consider "d = 0" | "0 < d" | "d < 0" by linarith
  then show ?thesis
  proof cases
    case 1
    then show ?thesis by (simp add: round_int_def round_magnitude_zero)
  next
    case 2
    then have "0 < sort_order (round_magnitude d)" by (rule round_magnitude_positive)
    then have "sort_order (round_magnitude d) = 1"
      using sort_order_values [of "round_magnitude d"] by linarith
    with 2 show ?thesis by (simp add: round_int_def)
  next
    case 3
    then have "0 < sort_order (round_magnitude (- d))" by (intro round_magnitude_positive) simp
    then have "sort_order (round_magnitude (- d)) = 1"
      using sort_order_values [of "round_magnitude (- d)"] by linarith
    with 3 show ?thesis by (simp add: round_int_def sort_order_js_neg)
  qed
qed

section \<open>The reference engine conforms\<close>

text \<open>Insertion sort with a comparator that does not throw.\<close>

fun insert_by :: "(job \<Rightarrow> job \<Rightarrow> jsnum) \<Rightarrow> job \<Rightarrow> job list \<Rightarrow> job list" where
  "insert_by c x [] = [x]"
| "insert_by c x (y # ys) =
     (if 0 < sort_order (c x y) then y # insert_by c x ys else x # y # ys)"

fun isort_by :: "(job \<Rightarrow> job \<Rightarrow> jsnum) \<Rightarrow> job list \<Rightarrow> job list" where
  "isort_by c [] = []"
| "isort_by c (x # xs) = insert_by c x (isort_by c xs)"

lemma insertE_pure:
  "\<forall>b\<in>set ys. cmp x b = Inr (c x b) \<Longrightarrow> insertE cmp x ys = Inr (insert_by c x ys)"
  by (induction ys) auto

lemma mset_insert_by: "mset (insert_by c x ys) = add_mset x (mset ys)"
  by (induction ys) auto

lemma mset_isort_by: "mset (isort_by c xs) = mset xs"
  by (induction xs) (auto simp: mset_insert_by)

lemma set_isort_by: "set (isort_by c xs) = set xs"
  using mset_isort_by [of c xs] by (metis set_mset_mset)

lemma insertion_sort_pure:
  "\<forall>a\<in>set xs. \<forall>b\<in>set xs. cmp a b = Inr (c a b) \<Longrightarrow>
     insertion_sort cmp xs = Inr (isort_by c xs)"
proof (induction xs)
  case Nil
  show ?case by simp
next
  case (Cons x xs)
  then have "insertion_sort cmp xs = Inr (isort_by c xs)" by simp
  moreover have "insertE cmp x (isort_by c xs) = Inr (insert_by c x (isort_by c xs))"
    using Cons.prems by (intro insertE_pure) (simp add: set_isort_by)
  ultimately show ?case by simp
qed

lemma consistent_subset:
  "consistent_comparator c S \<Longrightarrow> T \<subseteq> S \<Longrightarrow> consistent_comparator c T"
  unfolding consistent_comparator_def by (meson subsetD)

lemma consistent_greater_less:
  assumes "consistent_comparator c S" "a \<in> S" "b \<in> S" "0 < sort_order (c a b)"
  shows "sort_order (c b a) < 0"
proof (rule ccontr)
  assume "\<not> sort_order (c b a) < 0"
  then consider "sort_order (c b a) = 0" | "0 < sort_order (c b a)" by linarith
  then show False
  proof cases
    case 1
    then have "sort_order (c a b) = 0"
      using assms(1-3) unfolding consistent_comparator_def by blast
    with assms(4) show False by simp
  next
    case 2
    with assms have "0 < sort_order (c a a)"
      unfolding consistent_comparator_def by blast
    moreover have "sort_order (c a a) = 0"
      using assms(1,2) unfolding consistent_comparator_def by blast
    ultimately show False by simp
  qed
qed

lemma consistent_less_greater:
  assumes "consistent_comparator c S" "a \<in> S" "b \<in> S" "sort_order (c a b) < 0"
  shows "0 < sort_order (c b a)"
proof (rule ccontr)
  assume "\<not> 0 < sort_order (c b a)"
  then consider "sort_order (c b a) = 0" | "sort_order (c b a) < 0" by linarith
  then show False
  proof cases
    case 1
    then have "sort_order (c a b) = 0"
      using assms(1-3) unfolding consistent_comparator_def by blast
    with assms(4) show False by simp
  next
    case 2
    with assms have "sort_order (c a a) < 0"
      unfolding consistent_comparator_def by blast
    moreover have "sort_order (c a a) = 0"
      using assms(1,2) unfolding consistent_comparator_def by blast
    ultimately show False by simp
  qed
qed

lemma consistent_eq_sym:
  "consistent_comparator c S \<Longrightarrow> a \<in> S \<Longrightarrow> b \<in> S \<Longrightarrow> sort_order (c a b) = 0 \<Longrightarrow> sort_order (c b a) = 0"
  unfolding consistent_comparator_def by blast

lemma consistent_eq_trans:
  "consistent_comparator c S \<Longrightarrow> a \<in> S \<Longrightarrow> b \<in> S \<Longrightarrow> d \<in> S \<Longrightarrow>
     sort_order (c a b) = 0 \<Longrightarrow> sort_order (c b d) = 0 \<Longrightarrow> sort_order (c a d) = 0"
  unfolding consistent_comparator_def by blast

lemma consistent_less_trans:
  "consistent_comparator c S \<Longrightarrow> a \<in> S \<Longrightarrow> b \<in> S \<Longrightarrow> d \<in> S \<Longrightarrow>
     sort_order (c a b) < 0 \<Longrightarrow> sort_order (c b d) < 0 \<Longrightarrow> sort_order (c a d) < 0"
  unfolding consistent_comparator_def by blast

lemma consistent_le_trans:
  assumes cons: "consistent_comparator c S" and mem: "a \<in> S" "b \<in> S" "d \<in> S"
    and ab: "sort_order (c a b) \<le> 0" and bd: "sort_order (c b d) \<le> 0"
  shows "sort_order (c a d) \<le> 0"
proof (rule ccontr)
  assume "\<not> sort_order (c a d) \<le> 0"
  then have ad: "0 < sort_order (c a d)" by simp
  then have da: "sort_order (c d a) < 0"
    using cons mem by (intro consistent_greater_less [of c S a d]) auto
  consider "sort_order (c a b) = 0" "sort_order (c b d) = 0"
    | "sort_order (c a b) < 0" | "sort_order (c a b) = 0" "sort_order (c b d) < 0"
    using ab bd by linarith
  then show False
  proof cases
    case 1
    then have "sort_order (c a d) = 0" using cons mem by (meson consistent_eq_trans)
    with ad show False by simp
  next
    case 2
    with da have "sort_order (c d b) < 0" using cons mem by (meson consistent_less_trans)
    then have "0 < sort_order (c b d)" using cons mem by (meson consistent_less_greater)
    with bd show False by simp
  next
    case 3
    with da have "sort_order (c b a) < 0" using cons mem by (meson consistent_less_trans)
    moreover have "sort_order (c b a) = 0" using 3(1) cons mem by (meson consistent_eq_sym)
    ultimately show False by simp
  qed
qed

lemma set_insert_by: "set (insert_by c x ys) = insert x (set ys)"
  using mset_insert_by [of c x ys] by (metis set_mset_add_mset_insert set_mset_mset)

lemma sorted_insert_by:
  assumes "consistent_comparator c S" "x \<in> S" "set ys \<subseteq> S"
    and "sorted_wrt (\<lambda>a b. sort_order (c a b) \<le> 0) ys"
  shows "sorted_wrt (\<lambda>a b. sort_order (c a b) \<le> 0) (insert_by c x ys)"
  using assms(3,4)
proof (induction ys)
  case Nil
  show ?case by simp
next
  case (Cons y ys)
  show ?case
  proof (cases "0 < sort_order (c x y)")
    case True
    then have "sort_order (c y x) \<le> 0"
      using consistent_greater_less [OF assms(1,2), of y] Cons.prems(1) by simp
    then show ?thesis
      using True Cons by (auto simp: set_insert_by)
  next
    case False
    then have xy: "sort_order (c x y) \<le> 0" by simp
    have "sort_order (c x z) \<le> 0" if "z \<in> set ys" for z
    proof -
      have "sort_order (c y z) \<le> 0" using Cons.prems(2) that by simp
      with xy show ?thesis
        using consistent_le_trans [OF assms(1), of x y z] assms(2) Cons.prems(1) that by auto
    qed
    with False xy Cons.prems(2) show ?thesis by auto
  qed
qed

lemma sorted_isort_by:
  "consistent_comparator c (set xs) \<Longrightarrow>
     sorted_wrt (\<lambda>a b. sort_order (c a b) \<le> 0) (isort_by c xs)"
proof (induction xs)
  case Nil
  show ?case by simp
next
  case (Cons x xs)
  have "consistent_comparator c (set xs)"
    using Cons.prems by (rule consistent_subset) auto
  then have "sorted_wrt (\<lambda>a b. sort_order (c a b) \<le> 0) (isort_by c xs)"
    by (rule Cons.IH)
  then show ?case
    using sorted_insert_by [OF Cons.prems, of x "isort_by c xs"] by (simp add: set_isort_by subset_insertI)
qed

lemma stable_insert_by:
  assumes "consistent_comparator c S" "x \<in> S" "set ys \<subseteq> S" "a \<in> S"
  shows "filter (\<lambda>b. sort_order (c a b) = 0) (insert_by c x ys) =
         filter (\<lambda>b. sort_order (c a b) = 0) (x # ys)"
  using assms(3)
proof (induction ys)
  case Nil
  show ?case by simp
next
  case (Cons y ys)
  show ?case
  proof (cases "0 < sort_order (c x y)")
    case True
    have "\<not> (sort_order (c a x) = 0 \<and> sort_order (c a y) = 0)"
    proof
      assume both: "sort_order (c a x) = 0 \<and> sort_order (c a y) = 0"
      then have "sort_order (c x a) = 0"
        using consistent_eq_sym [OF assms(1), of a x] assms(2,4) by simp
      with both have "sort_order (c x y) = 0"
        using consistent_eq_trans [OF assms(1), of x a y] assms(2,4) Cons.prems by simp
      with True show False by simp
    qed
    with True Cons show ?thesis by auto
  next
    case False
    then show ?thesis by simp
  qed
qed

lemma stable_isort_by:
  assumes "consistent_comparator c S" "a \<in> S"
  shows "set xs \<subseteq> S \<Longrightarrow>
     filter (\<lambda>b. sort_order (c a b) = 0) (isort_by c xs) =
     filter (\<lambda>b. sort_order (c a b) = 0) xs"
proof (induction xs)
  case Nil
  then show ?case by simp
next
  case (Cons x xs)
  have "filter (\<lambda>b. sort_order (c a b) = 0) (insert_by c x (isort_by c xs)) =
        filter (\<lambda>b. sort_order (c a b) = 0) (x # isort_by c xs)"
    using stable_insert_by [OF assms(1), of x "isort_by c xs" a] assms(2) Cons.prems
    by (simp add: set_isort_by)
  with Cons show ?case by simp
qed

lemma compare_code_units_consistent:
  "consistent_comparator (\<lambda>s t. Num (compare_code_units s t)) UNIV"
  by (auto simp: consistent_comparator_def compare_code_units_def split: if_splits)


lemma reference_engine_conforming: "conforming reference_engine"
proof -
  have "\<exists>ys. insertion_sort cmp xs = Inr ys \<and> mset ys = mset xs \<and>
           (consistent_comparator c (set xs) \<longrightarrow> stably_sorted c xs ys)"
    if pure: "\<forall>a\<in>set xs. \<forall>b\<in>set xs. cmp a b = Inr (c a b)" for cmp c xs
  proof (intro exI conjI impI)
    show "insertion_sort cmp xs = Inr (isort_by c xs)"
      using pure by (rule insertion_sort_pure)
    show "mset (isort_by c xs) = mset xs"
      by (rule mset_isort_by)
    show "stably_sorted c xs (isort_by c xs)" if cons: "consistent_comparator c (set xs)"
      unfolding stably_sorted_def
    proof (intro conjI ballI)
      show "sorted_wrt (\<lambda>a b. sort_order (c a b) \<le> 0) (isort_by c xs)"
        using cons by (rule sorted_isort_by)
      show "filter (\<lambda>b. sort_order (c a b) = 0) (isort_by c xs) =
            filter (\<lambda>b. sort_order (c a b) = 0) xs"
        if "a \<in> set xs" for a
        using cons that by (intro stable_isort_by [of c "set xs"]) auto
    qed
  qed
  then show ?thesis
    by (simp add: conforming_def reference_engine_def compare_code_units_consistent)
qed

section \<open>Sorting the filtered array\<close>

text \<open>
  On well-typed jobs the comparators do not throw; \<open>order_alphabetical\<close>, \<open>order_high_low\<close>
  and \<open>order_low_high\<close> are the numbers they return.
\<close>

lemma fresh_in_update:
  "fresh_in h0 st \<Longrightarrow> fresh_in h0 (fst st, (snd st)[fst st := ys])"
  by (simp add: fresh_in_def)

lemma contents_update:
  "fresh_in h0 st \<Longrightarrow> contents (fst st, (snd st)[fst st := ys]) = ys"
  by (simp add: fresh_in_def contents_def)

definition title_text :: "job \<Rightarrow> string" where
  "title_text j = (case title j of None \<Rightarrow> ''undefined'' | Some t \<Rightarrow> t)"

definition order_alphabetical :: "engine \<Rightarrow> job \<Rightarrow> job \<Rightarrow> jsnum" where
  "order_alphabetical eng a b = Num (engine_localeCompare eng (title_text a) (title_text b))"

definition order_high_low :: "job \<Rightarrow> job \<Rightarrow> jsnum" where
  "order_high_low a b = js_sub (parsedSalary b) (parsedSalary a)"

definition order_low_high :: "job \<Rightarrow> job \<Rightarrow> jsnum" where
  "order_low_high a b = js_sub (parsedSalary a) (parsedSalary b)"

lemma cmp_alphabetical_pure:
  "well_typed a \<Longrightarrow>
     cmp_alphabetical (engine_localeCompare eng) a b = Inr (order_alphabetical eng a b)"
  by (auto simp: well_typed_def cmp_alphabetical_def order_alphabetical_def title_text_def
      split: option.splits)

lemma cmp_high_low_pure: "cmp_high_low a b = Inr (order_high_low a b)"
  by (simp add: cmp_high_low_def order_high_low_def)

lemma cmp_low_high_pure: "cmp_low_high a b = Inr (order_low_high a b)"
  by (simp add: cmp_low_high_def order_low_high_def)

lemma conforming_sort:
  assumes "conforming eng" "\<forall>a\<in>set xs. \<forall>b\<in>set xs. cmp a b = Inr (c a b)"
  shows "\<exists>ys. engine_sort eng cmp xs = Inr ys \<and> mset ys = mset xs \<and>
           (consistent_comparator c (set xs) \<longrightarrow> stably_sorted c xs ys)"
proof -
  have "\<forall>cmp c xs.
        (\<forall>a\<in>set xs. \<forall>b\<in>set xs. cmp a b = Inr (c a b)) \<longrightarrow>
        (\<exists>ys. engine_sort eng cmp xs = Inr ys \<and> mset ys = mset xs \<and>
           (consistent_comparator c (set xs) \<longrightarrow> stably_sorted c xs ys))"
    using assms(1) unfolding conforming_def by (rule conjunct1)
  then have "(\<forall>a\<in>set xs. \<forall>b\<in>set xs. cmp a b = Inr (c a b)) \<longrightarrow>
        (\<exists>ys. engine_sort eng cmp xs = Inr ys \<and> mset ys = mset xs \<and>
           (consistent_comparator c (set xs) \<longrightarrow> stably_sorted c xs ys))"
    by (elim allE)
  with assms(2) show ?thesis by (rule rev_mp)
qed

lemma array_sort_conforming:
  assumes "conforming eng" "fresh_in h0 st"
    and "\<forall>a\<in>set (contents st). \<forall>b\<in>set (contents st). cmp a b = Inr (c a b)"
  shows "\<exists>st'. array_sort eng cmp st = Inr st' \<and> fresh_in h0 st' \<and>
           mset (contents st') = mset (contents st) \<and>
           (consistent_comparator c (set (contents st)) \<longrightarrow>
              stably_sorted c (contents st) (contents st'))"
proof -
  from conforming_sort [OF assms(1,3)] obtain ys where
    ys: "engine_sort eng cmp (contents st) = Inr ys" "mset ys = mset (contents st)"
      "consistent_comparator c (set (contents st)) \<longrightarrow> stably_sorted c (contents st) ys"
    by (elim exE conjE)
  let ?st' = "(fst st, (snd st)[fst st := ys])"
  have "array_sort eng cmp st = Inr ?st'"
    using ys(1) by (simp add: array_sort_def)
  moreover have "fresh_in h0 ?st'" "contents ?st' = ys"
    using assms(2) by (simp_all add: fresh_in_update contents_update)
  ultimately show ?thesis
    using ys(2,3) by (intro exI [of _ ?st']) simp
qed

lemma array_sort_permutes:
  assumes "conforming eng" "fresh_in h0 st"
    and "\<forall>a\<in>set (contents st). \<forall>b\<in>set (contents st). cmp a b = Inr (c a b)"
  shows "\<exists>st'. array_sort eng cmp st = Inr st' \<and> fresh_in h0 st' \<and>
           mset (contents st') = mset (contents st)"
  using array_sort_conforming [OF assms] by (elim exE conjE) (intro exI conjI)

lemma apply_sort_permutes:
  assumes "conforming eng" "fresh_in h0 st" "list_all well_typed (contents st)"
  shows "\<exists>st'. apply_sort eng sortOption st = Inr st' \<and> fresh_in h0 st' \<and>
           mset (contents st') = mset (contents st)"
proof -
  have alpha: "\<forall>a\<in>set (contents st). \<forall>b\<in>set (contents st).
      cmp_alphabetical (engine_localeCompare eng) a b = Inr (order_alphabetical eng a b)"
    using assms(3) by (simp add: list_all_iff cmp_alphabetical_pure)
  have hl: "\<forall>a\<in>set (contents st). \<forall>b\<in>set (contents st).
      cmp_high_low a b = Inr (order_high_low a b)"
    by (simp add: cmp_high_low_pure)
  have lh: "\<forall>a\<in>set (contents st). \<forall>b\<in>set (contents st).
      cmp_low_high a b = Inr (order_low_high a b)"
    by (simp add: cmp_low_high_pure)
  consider "sortOption = ''alphabetical''" | "sortOption = ''salary-high-low''"
    | "sortOption = ''salary-low-high''"
    | "sortOption \<noteq> ''alphabetical''" "sortOption \<noteq> ''salary-high-low''"
      "sortOption \<noteq> ''salary-low-high''"
    by blast
  then show ?thesis
  proof cases
    case 1
    then show ?thesis
      using array_sort_permutes [OF assms(1,2) alpha] by (simp add: apply_sort_def)
  next
    case 2
    then show ?thesis
      using array_sort_permutes [OF assms(1,2) hl] by (simp add: apply_sort_def)
  next
    case 3
    then show ?thesis
      using array_sort_permutes [OF assms(1,2) lh] by (simp add: apply_sort_def)
  next
    case 4
    then show ?thesis
      using assms(2) by (intro exI [of _ st]) (simp add: apply_sort_def)
  qed
qed

lemma applyFiltersAndSort_returns:
  assumes "conforming eng" "jobs < length h" "list_all well_typed (h ! jobs)"
  shows "\<exists>st. applyFiltersAndSort eng h jobs f q sortOption = Inr st \<and> fresh_in h st \<and>
           mset (contents st) = mset (filter (satisfies eng f q) (h ! jobs))"
proof -
  from filtered_before_sort [OF assms(2,3), of implemented_order eng f q]
  obtain st1 where st1: "thenE (spread h jobs) (run_stages eng f q implemented_order) = Inr st1"
    "fresh_in h st1" "contents st1 = filter (satisfies eng f q) (h ! jobs)"
    by auto
  have "list_all well_typed (contents st1)"
    using assms(3) st1(3) by (simp add: list_all_filter)
  from apply_sort_permutes [OF assms(1) st1(2) this, of sortOption] st1
  show ?thesis
    by (auto simp: applyFiltersAndSort_stages thenE_def)
qed

lemma applyFiltersAndSort_unsorted:
  assumes "jobs < length h" "list_all well_typed (h ! jobs)"
  shows "returned (applyFiltersAndSort eng h jobs f q []) =
           Inr (filter (satisfies eng f q) (h ! jobs))"
proof -
  from filtered_before_sort [OF assms, of implemented_order eng f q]
  show ?thesis
    by (auto simp: applyFiltersAndSort_stages thenE_def apply_sort_def returned_def)
qed

section \<open>The binary insertion engine conforms\<close>

text \<open>
  \<open>total_on cmp c S\<close>: on the jobs of \<open>S\<close> the comparator \<open>cmp\<close> does not throw,
  and \<open>c\<close> is the number it returns.
\<close>

definition total_on :: "(job \<Rightarrow> job \<Rightarrow> error + jsnum) \<Rightarrow> (job \<Rightarrow> job \<Rightarrow> jsnum) \<Rightarrow> job set \<Rightarrow> bool" where
  "total_on cmp c S \<longleftrightarrow> (\<forall>a\<in>S. \<forall>b\<in>S. cmp a b = Inr (c a b))"

lemma total_onD: "total_on cmp c S \<Longrightarrow> a \<in> S \<Longrightarrow> b \<in> S \<Longrightarrow> cmp a b = Inr (c a b)"
  by (simp add: total_on_def)

text \<open>The initial run: each element does not compare less than the one before it, or
  each compares less.\<close>

lemma extend_run_ok:
  assumes "total_on cmp c S"
  shows "previous \<in> S \<Longrightarrow> set xs \<subseteq> S \<Longrightarrow>
     \<exists>n. extend_run cmp descending previous xs = Inr n \<and> n \<le> length xs \<and>
       successively
         (\<lambda>a b. if descending then sort_order (c b a) < 0 else 0 \<le> sort_order (c b a))
         (previous # take n xs)"
proof (induction xs arbitrary: previous)
  case Nil
  then show ?case by simp
next
  case (Cons x xs)
  have cmp: "cmp x previous = Inr (c x previous)"
    using assms Cons.prems by (simp add: total_onD)
  show ?case
  proof (cases "if descending then 0 \<le> sort_order (c x previous)
                else sort_order (c x previous) < 0")
    case True
    then show ?thesis using cmp by (intro exI [of _ 0]) simp
  next
    case False
    from Cons.IH [of x] Cons.prems obtain n where n:
      "extend_run cmp descending x xs = Inr n" "n \<le> length xs"
      "successively
         (\<lambda>a b. if descending then sort_order (c b a) < 0 else 0 \<le> sort_order (c b a))
         (x # take n xs)"
      by auto
    show ?thesis
      using False cmp n by (intro exI [of _ "Suc n"]) (auto split: if_splits)
  qed
qed

text \<open>The binary search returns an index of the sorted part.\<close>

lemma binary_search_total:
  "total_on cmp c S \<Longrightarrow> pivot \<in> S \<Longrightarrow> set ps \<subseteq> S \<Longrightarrow> right \<le> length ps \<Longrightarrow>
     left \<le> right \<Longrightarrow>
     \<exists>i. binary_search cmp pivot ps left right = Inr i \<and> left \<le> i \<and> i \<le> right"
proof (induction cmp pivot ps left right rule: binary_search.induct)
  case (1 cmp pivot ps left right)
  show ?case
  proof (cases "left < right")
    case False
    then show ?thesis using "1.prems" by (subst binary_search.simps) simp
  next
    case True
    define mid where "mid = left + (right - left) div 2"
    have mid: "left \<le> mid" "mid < right" using True by (simp_all add: mid_def)
    then have "mid < length ps" using "1.prems" by simp
    then have "ps ! mid \<in> set ps" by (rule nth_mem)
    then have "ps ! mid \<in> S" using "1.prems"(3) by blast
    then have cmp: "cmp pivot (ps ! mid) = Inr (c pivot (ps ! mid))"
      using "1.prems"(1,2) by (simp add: total_onD)
    show ?thesis
    proof (cases "sort_order (c pivot (ps ! mid)) < 0")
      case less: True
      from "1.IH"(1) [OF True mid_def cmp less "1.prems"(1-3)] "1.prems" mid
      obtain i where "binary_search cmp pivot ps left mid = Inr i" "left \<le> i" "i \<le> mid"
        by auto
      then show ?thesis
        using True less cmp mid by (subst binary_search.simps) (simp add: mid_def [symmetric])
    next
      case geq: False
      from "1.IH"(2) [OF True mid_def cmp geq "1.prems"(1-3)] "1.prems" mid
      obtain i where "binary_search cmp pivot ps (mid + 1) right = Inr i" "mid + 1 \<le> i" "i \<le> right"
        by auto
      then show ?thesis
        using True geq cmp mid by (subst binary_search.simps) (simp add: mid_def [symmetric])
    qed
  qed
qed


text \<open>Two more consequences of consistency.\<close>

lemma consistent_less_le_trans:
  assumes cons: "consistent_comparator c S" and mem: "a \<in> S" "b \<in> S" "d \<in> S"
    and ab: "sort_order (c a b) < 0" and bd: "sort_order (c b d) \<le> 0"
  shows "sort_order (c a d) < 0"
proof (cases "sort_order (c b d) < 0")
  case True
  with ab show ?thesis using cons mem by (meson consistent_less_trans)
next
  case False
  with bd have eq: "sort_order (c b d) = 0" by simp
  show ?thesis
  proof (rule ccontr)
    assume "\<not> sort_order (c a d) < 0"
    then consider "sort_order (c a d) = 0" | "0 < sort_order (c a d)" by linarith
    then show False
    proof cases
      case 1
      have "sort_order (c d b) = 0" using eq cons mem by (meson consistent_eq_sym)
      with 1 have "sort_order (c a b) = 0" using cons mem by (meson consistent_eq_trans)
      with ab show False by simp
    next
      case 2
      then have "sort_order (c d a) < 0" using cons mem by (meson consistent_greater_less)
      with ab have "sort_order (c d b) < 0" using cons mem by (meson consistent_less_trans)
      moreover have "sort_order (c d b) = 0" using eq cons mem by (meson consistent_eq_sym)
      ultimately show False by simp
    qed
  qed
qed

lemma consistent_ge_le:
  assumes "consistent_comparator c S" "a \<in> S" "b \<in> S" "0 \<le> sort_order (c a b)"
  shows "sort_order (c b a) \<le> 0"
proof (cases "sort_order (c a b) = 0")
  case True
  then have "sort_order (c b a) = 0" using assms(1-3) by (meson consistent_eq_sym)
  then show ?thesis by simp
next
  case False
  with assms(4) have "0 < sort_order (c a b)" by simp
  then have "sort_order (c b a) < 0" using assms(1-3) by (meson consistent_greater_less)
  then show ?thesis by simp
qed

text \<open>What the binary search maintains: the elements before \<open>left\<close> are not greater
  than the pivot, and those from \<open>right\<close> on are greater.\<close>

definition splits_at :: "(job \<Rightarrow> job \<Rightarrow> jsnum) \<Rightarrow> job \<Rightarrow> job list \<Rightarrow> nat \<Rightarrow> nat \<Rightarrow> bool" where
  "splits_at c pivot ps left right \<longleftrightarrow>
     (\<forall>k<left. 0 \<le> sort_order (c pivot (ps ! k))) \<and>
     (\<forall>k. right \<le> k \<and> k < length ps \<longrightarrow> sort_order (c pivot (ps ! k)) < 0)"

lemma binary_search_splits:
  "total_on cmp c S \<Longrightarrow> consistent_comparator c S \<Longrightarrow> pivot \<in> S \<Longrightarrow> set ps \<subseteq> S \<Longrightarrow>
     sorted_wrt (\<lambda>a b. sort_order (c a b) \<le> 0) ps \<Longrightarrow> right \<le> length ps \<Longrightarrow>
     splits_at c pivot ps left right \<Longrightarrow> binary_search cmp pivot ps left right = Inr i \<Longrightarrow>
     splits_at c pivot ps i i"
proof (induction cmp pivot ps left right rule: binary_search.induct)
  case (1 cmp pivot ps left right)
  note total = "1.prems"(1) and cons = "1.prems"(2) and pivot = "1.prems"(3)
    and sub = "1.prems"(4) and sorted = "1.prems"(5) and right = "1.prems"(6)
    and inv = "1.prems"(7) and res = "1.prems"(8)
  have in_S: "ps ! k \<in> S" if "k < length ps" for k
    using that sub nth_mem by blast
  show ?case
  proof (cases "left < right")
    case False
    then have "binary_search cmp pivot ps left right = Inr left"
      by (subst binary_search.simps) simp
    with res have "i = left" by simp
    with False inv show ?thesis by (auto simp: splits_at_def)
  next
    case True
    define mid where "mid = left + (right - left) div 2"
    have mid: "left \<le> mid" "mid < right" using True by (simp_all add: mid_def)
    then have mid_len: "mid < length ps" using right by simp
    have cmp: "cmp pivot (ps ! mid) = Inr (c pivot (ps ! mid))"
      using total pivot in_S [OF mid_len] by (simp add: total_onD)
    show ?thesis
    proof (cases "sort_order (c pivot (ps ! mid)) < 0")
      case less: True
      have "sort_order (c pivot (ps ! k)) < 0" if "mid \<le> k" "k < length ps" for k
      proof (cases "k = mid")
        case True
        with less show ?thesis by simp
      next
        case False
        with that have "mid < k" by simp
        then have "sort_order (c (ps ! mid) (ps ! k)) \<le> 0"
          using sorted that(2) by (simp add: sorted_wrt_iff_nth_less)
        with less show ?thesis
          using consistent_less_le_trans [OF cons pivot in_S [OF mid_len] in_S [OF that(2)]]
          by simp
      qed
      with inv have inv': "splits_at c pivot ps left mid"
        by (simp add: splits_at_def)
      have "binary_search cmp pivot ps left mid = Inr i"
        using res True less cmp by (subst (asm) binary_search.simps) (simp add: mid_def [symmetric])
      with "1.IH"(1) [OF True mid_def cmp less total cons pivot sub sorted _ inv'] mid_len
      show ?thesis by simp
    next
      case geq: False
      have "0 \<le> sort_order (c pivot (ps ! k))" if "k < mid + 1" for k
      proof (cases "k = mid")
        case True
        with geq show ?thesis by simp
      next
        case False
        with that have k: "k < mid" by simp
        then have k_len: "k < length ps" using mid_len by simp
        have le: "sort_order (c (ps ! k) (ps ! mid)) \<le> 0"
          using sorted k mid_len by (simp add: sorted_wrt_iff_nth_less)
        show ?thesis
        proof (rule ccontr)
          assume "\<not> 0 \<le> sort_order (c pivot (ps ! k))"
          then have "sort_order (c pivot (ps ! k)) < 0" by simp
          with le have "sort_order (c pivot (ps ! mid)) < 0"
            using consistent_less_le_trans [OF cons pivot in_S [OF k_len] in_S [OF mid_len]]
            by simp
          with geq show False by simp
        qed
      qed
      with inv mid have inv': "splits_at c pivot ps (mid + 1) right"
        by (simp add: splits_at_def)
      have "binary_search cmp pivot ps (mid + 1) right = Inr i"
        using res True geq cmp by (subst (asm) binary_search.simps) (simp add: mid_def [symmetric])
      with "1.IH"(2) [OF True mid_def cmp geq total cons pivot sub sorted right inv']
      show ?thesis by simp
    qed
  qed
qed


text \<open>Inserting the pivot where the search ends keeps the sorted part in order, and puts
  the pivot after the elements that compare equal to it.\<close>

lemma take_drop_members:
  assumes "i \<le> length ps"
  shows "x \<in> set (take i ps) \<Longrightarrow> \<exists>k<i. ps ! k = x"
    and "y \<in> set (drop i ps) \<Longrightarrow> \<exists>k. i \<le> k \<and> k < length ps \<and> ps ! k = y"
proof -
  assume "x \<in> set (take i ps)"
  then obtain k where "k < length (take i ps)" "take i ps ! k = x"
    by (auto simp: in_set_conv_nth)
  then show "\<exists>k<i. ps ! k = x" by (intro exI [of _ k]) simp
next
  assume "y \<in> set (drop i ps)"
  then obtain k where "k < length (drop i ps)" "drop i ps ! k = y"
    by (auto simp: in_set_conv_nth)
  then show "\<exists>k. i \<le> k \<and> k < length ps \<and> ps ! k = y"
    using assms by (intro exI [of _ "i + k"]) auto
qed

lemma insert_at_sorted:
  assumes cons: "consistent_comparator c S" and pivot: "pivot \<in> S" and sub: "set ps \<subseteq> S"
    and sorted: "sorted_wrt (\<lambda>a b. sort_order (c a b) \<le> 0) ps" and i: "i \<le> length ps"
    and split: "splits_at c pivot ps i i"
  shows "sorted_wrt (\<lambda>a b. sort_order (c a b) \<le> 0) (take i ps @ pivot # drop i ps)"
proof -
  have "sorted_wrt (\<lambda>a b. sort_order (c a b) \<le> 0) (take i ps @ drop i ps)"
    using sorted by simp
  then have parts: "sorted_wrt (\<lambda>a b. sort_order (c a b) \<le> 0) (take i ps)"
    "sorted_wrt (\<lambda>a b. sort_order (c a b) \<le> 0) (drop i ps)"
    "\<forall>x\<in>set (take i ps). \<forall>y\<in>set (drop i ps). sort_order (c x y) \<le> 0"
    unfolding sorted_wrt_append by blast+
  have before: "sort_order (c x pivot) \<le> 0" if "x \<in> set (take i ps)" for x
  proof -
    from take_drop_members(1) [OF i that] obtain k where "k < i" "ps ! k = x" by blast
    with split have "0 \<le> sort_order (c pivot x)" by (auto simp: splits_at_def)
    moreover have "x \<in> S" using that sub by (meson in_set_takeD subsetD)
    ultimately show ?thesis using consistent_ge_le [OF cons pivot] by blast
  qed
  have after: "sort_order (c pivot y) \<le> 0" if "y \<in> set (drop i ps)" for y
  proof -
    from take_drop_members(2) [OF i that] obtain k where "i \<le> k" "k < length ps" "ps ! k = y"
      by blast
    with split have "sort_order (c pivot y) < 0" by (auto simp: splits_at_def)
    then show ?thesis by simp
  qed
  show ?thesis
    unfolding sorted_wrt_append using parts before after by auto
qed

lemma insert_at_stable:
  assumes cons: "consistent_comparator c S" and pivot: "pivot \<in> S" and sub: "set ps \<subseteq> S"
    and i: "i \<le> length ps" and split: "splits_at c pivot ps i i" and a: "a \<in> S"
  shows "filter (\<lambda>b. sort_order (c a b) = 0) (take i ps @ pivot # drop i ps) =
         filter (\<lambda>b. sort_order (c a b) = 0) (ps @ [pivot])"
proof (cases "sort_order (c a pivot) = 0")
  case False
  have "filter (\<lambda>b. sort_order (c a b) = 0) (take i ps @ drop i ps) =
        filter (\<lambda>b. sort_order (c a b) = 0) ps"
    by simp
  with False show ?thesis by (simp del: append_take_drop_id)
next
  case True
  have "sort_order (c a y) \<noteq> 0" if "y \<in> set (drop i ps)" for y
  proof
    assume eq: "sort_order (c a y) = 0"
    from take_drop_members(2) [OF i that] obtain k where "i \<le> k" "k < length ps" "ps ! k = y"
      by blast
    with split have less: "sort_order (c pivot y) < 0" by (auto simp: splits_at_def)
    have y: "y \<in> S" using that sub by (meson in_set_dropD subsetD)
    have "sort_order (c pivot a) = 0" using True cons pivot a by (meson consistent_eq_sym)
    with eq have "sort_order (c pivot y) = 0" using cons pivot a y by (meson consistent_eq_trans)
    with less show False by simp
  qed
  then have none: "filter (\<lambda>b. sort_order (c a b) = 0) (drop i ps) = []"
    by (simp add: filter_empty_conv)
  have "filter (\<lambda>b. sort_order (c a b) = 0) ps =
        filter (\<lambda>b. sort_order (c a b) = 0) (take i ps @ drop i ps)"
    by simp
  also have "\<dots> = filter (\<lambda>b. sort_order (c a b) = 0) (take i ps)"
    using none by (simp del: append_take_drop_id)
  finally show ?thesis using True none by simp
qed

lemma insert_rest_total:
  assumes "total_on cmp c S"
  shows "set ps \<subseteq> S \<Longrightarrow> set xs \<subseteq> S \<Longrightarrow>
     \<exists>ys. insert_rest cmp ps xs = Inr ys \<and> mset ys = mset ps + mset xs"
proof (induction xs arbitrary: ps)
  case Nil
  then show ?case by simp
next
  case (Cons x xs)
  from binary_search_total [OF assms, of x ps "length ps" 0] Cons.prems
  obtain i where i: "binary_search cmp x ps 0 (length ps) = Inr i" "i \<le> length ps" by auto
  let ?ps' = "take i ps @ x # drop i ps"
  have "mset ?ps' = add_mset x (mset (take i ps @ drop i ps))" by (simp del: append_take_drop_id)
  then have ms: "mset ?ps' = add_mset x (mset ps)" by simp
  then have "set ?ps' = insert x (set ps)" 
    by (metis set_mset_add_mset_insert set_mset_mset)
  with Cons.prems have "set ?ps' \<subseteq> S" by simp
  from Cons.IH [OF this] Cons.prems obtain ys where
    "insert_rest cmp ?ps' xs = Inr ys" "mset ys = mset ?ps' + mset xs" by auto
  with i ms show ?case by simp
qed

lemma insert_rest_sorted:
  assumes "total_on cmp c S" "consistent_comparator c S"
  shows "set ps \<subseteq> S \<Longrightarrow> set xs \<subseteq> S \<Longrightarrow> sorted_wrt (\<lambda>a b. sort_order (c a b) \<le> 0) ps \<Longrightarrow>
     insert_rest cmp ps xs = Inr ys \<Longrightarrow>
     sorted_wrt (\<lambda>a b. sort_order (c a b) \<le> 0) ys \<and>
     (\<forall>a\<in>S. filter (\<lambda>b. sort_order (c a b) = 0) ys =
             filter (\<lambda>b. sort_order (c a b) = 0) (ps @ xs))"
proof (induction xs arbitrary: ps)
  case Nil
  then show ?case by simp
next
  case (Cons x xs)
  have x: "x \<in> S" using Cons.prems(2) by simp
  from binary_search_total [OF assms(1) x Cons.prems(1), of "length ps" 0]
  obtain i where i: "binary_search cmp x ps 0 (length ps) = Inr i" "i \<le> length ps" by auto
  have "splits_at c x ps 0 (length ps)" by (simp add: splits_at_def)
  from binary_search_splits [OF assms x Cons.prems(1,3) _ this i(1)]
  have split: "splits_at c x ps i i" by simp
  let ?ps' = "take i ps @ x # drop i ps"
  have sorted': "sorted_wrt (\<lambda>a b. sort_order (c a b) \<le> 0) ?ps'"
    using assms(2) x Cons.prems(1,3) i(2) split by (rule insert_at_sorted)
  have "set ?ps' \<subseteq> insert x (set ps)"
    by (auto dest: in_set_takeD in_set_dropD)
  with x Cons.prems(1) have sub': "set ?ps' \<subseteq> S" by auto
  have rest: "insert_rest cmp ?ps' xs = Inr ys"
    using Cons.prems(4) i(1) by simp
  from Cons.IH [OF sub' _ sorted' rest] Cons.prems(2)
  have ih: "sorted_wrt (\<lambda>a b. sort_order (c a b) \<le> 0) ys"
    "\<forall>a\<in>S. filter (\<lambda>b. sort_order (c a b) = 0) ys =
            filter (\<lambda>b. sort_order (c a b) = 0) (?ps' @ xs)"
    by auto
  have "filter (\<lambda>b. sort_order (c a b) = 0) ys =
        filter (\<lambda>b. sort_order (c a b) = 0) (ps @ x # xs)" if "a \<in> S" for a
  proof -
    have "filter (\<lambda>b. sort_order (c a b) = 0) ?ps' =
          filter (\<lambda>b. sort_order (c a b) = 0) (ps @ [x])"
      using assms(2) x Cons.prems(1) i(2) split that by (rule insert_at_stable)
    then have "filter (\<lambda>b. sort_order (c a b) = 0) (?ps' @ xs) =
          filter (\<lambda>b. sort_order (c a b) = 0) ((ps @ [x]) @ xs)"
      by (simp only: filter_append)
    with ih(2) that show ?thesis by simp
  qed
  with ih(1) show ?case by blast
qed


text \<open>The initial run is in order; a strictly descending run has no two elements that
  compare equal, so reversing it swaps none.\<close>

lemma ascending_run_sorted:
  assumes cons: "consistent_comparator c S" and sub: "set run \<subseteq> S"
    and run: "successively (\<lambda>a b. 0 \<le> sort_order (c b a)) run"
  shows "sorted_wrt (\<lambda>a b. sort_order (c a b) \<le> 0) run"
proof -
  have "successively (\<lambda>a b. sort_order (c a b) \<le> 0) run"
    using run
  proof (rule successively_mono)
    fix x y assume "x \<in> set run" "y \<in> set run" "0 \<le> sort_order (c y x)"
    then show "sort_order (c x y) \<le> 0"
      using consistent_ge_le [OF cons, of y x] sub by blast
  qed
  moreover have "sort_order (c x z) \<le> 0"
    if "x \<in> set run" "y \<in> set run" "z \<in> set run"
      "sort_order (c x y) \<le> 0" "sort_order (c y z) \<le> 0" for x y z
    using consistent_le_trans [OF cons, of x y z] that sub by blast
  ultimately show ?thesis
    by (subst (asm) successively_iff_sorted_wrt_strong) blast+
qed

lemma descending_run_strict:
  assumes cons: "consistent_comparator c S" and sub: "set run \<subseteq> S"
    and run: "successively (\<lambda>a b. sort_order (c b a) < 0) run"
  shows "sorted_wrt (\<lambda>a b. sort_order (c a b) < 0) (rev run)"
proof -
  have "successively (\<lambda>a b. sort_order (c a b) < 0) (rev run)"
    using run by simp
  moreover have "sort_order (c x z) < 0"
    if "x \<in> set (rev run)" "y \<in> set (rev run)" "z \<in> set (rev run)"
      "sort_order (c x y) < 0" "sort_order (c y z) < 0" for x y z
    using consistent_less_trans [OF cons, of x y z] that sub by auto
  ultimately show ?thesis
    by (subst (asm) successively_iff_sorted_wrt_strong) blast+
qed

lemma strict_classes_small:
  assumes cons: "consistent_comparator c S" and a: "a \<in> S"
  shows "set zs \<subseteq> S \<Longrightarrow> sorted_wrt (\<lambda>a b. sort_order (c a b) < 0) zs \<Longrightarrow>
     length (filter (\<lambda>b. sort_order (c a b) = 0) zs) \<le> 1"
proof (induction zs)
  case Nil
  then show ?case by simp
next
  case (Cons z zs)
  show ?case
  proof (cases "sort_order (c a z) = 0")
    case False
    with Cons show ?thesis by simp
  next
    case True
    have "sort_order (c a y) \<noteq> 0" if "y \<in> set zs" for y
    proof
      assume eq: "sort_order (c a y) = 0"
      have mem: "z \<in> S" "y \<in> S" using Cons.prems(1) that by auto
      have "sort_order (c z a) = 0" using True cons a mem by (meson consistent_eq_sym)
      with eq have "sort_order (c z y) = 0" using cons a mem by (meson consistent_eq_trans)
      moreover have "sort_order (c z y) < 0" using Cons.prems(2) that by simp
      ultimately show False by simp
    qed
    then have "filter (\<lambda>b. sort_order (c a b) = 0) zs = []"
      by (simp add: filter_empty_conv)
    with True show ?thesis by simp
  qed
qed

lemma descending_run_stable:
  assumes cons: "consistent_comparator c S" and sub: "set run \<subseteq> S" and a: "a \<in> S"
    and run: "successively (\<lambda>a b. sort_order (c b a) < 0) run"
  shows "filter (\<lambda>b. sort_order (c a b) = 0) (rev run) =
         filter (\<lambda>b. sort_order (c a b) = 0) run"
proof -
  let ?f = "filter (\<lambda>b. sort_order (c a b) = 0) (rev run)"
  have "length ?f \<le> 1"
    using cons a descending_run_strict [OF cons sub run] sub
    by (intro strict_classes_small [of c S]) auto
  then have "rev ?f = ?f"
    by (cases ?f) (auto simp: le_Suc_eq)
  then show ?thesis by (simp add: rev_filter)
qed

lemma binary_insertion_sort_conforms:
  assumes total: "total_on cmp c (set xs)"
  shows "\<exists>ys. binary_insertion_sort cmp xs = Inr ys \<and> mset ys = mset xs \<and>
           (consistent_comparator c (set xs) \<longrightarrow> stably_sorted c xs ys)"
proof -
  consider "xs = []" | x where "xs = [x]" | x y rest where "xs = x # y # rest"
    by (cases xs rule: remdups_adj.cases) auto
  then show ?thesis
  proof cases
  case 1
  then show ?thesis by (simp add: stably_sorted_def)
next
  case (2 x)
  then show ?thesis by (simp add: stably_sorted_def)
next
  case (3 x y rest)
  then have xs: "xs = x # y # rest" by simp
  let ?S = "set xs"
  let ?le = "\<lambda>a b. sort_order (c a b) \<le> 0"
  define descending where "descending \<longleftrightarrow> sort_order (c y x) < 0"
  let ?R = "\<lambda>a b. if descending then sort_order (c b a) < 0 else 0 \<le> sort_order (c b a)"
  have first: "cmp y x = Inr (c y x)"
    using total xs by (simp add: total_onD)
  from extend_run_ok [OF total, of y rest descending] xs
  obtain n where n: "extend_run cmp descending y rest = Inr n" "n \<le> length rest"
    "successively ?R (y # take n rest)"
    by auto
  define run where "run = x # y # take n rest"
  define ps where "ps = (if descending then rev run else run)"
  have run_R: "successively ?R run"
    using n(3) by (simp add: run_def descending_def)
  have split: "xs = run @ drop n rest"
    by (simp add: xs run_def)
  have sub: "set run \<subseteq> ?S" "set ps \<subseteq> ?S" "set (drop n rest) \<subseteq> ?S"
    using split by (auto simp: ps_def)
  have unfold: "binary_insertion_sort cmp xs = insert_rest cmp ps (drop n rest)"
    using first n(1) by (simp add: xs ps_def run_def descending_def)
  from insert_rest_total [OF total sub(2,3)] obtain ys where
    ys: "insert_rest cmp ps (drop n rest) = Inr ys" "mset ys = mset ps + mset (drop n rest)"
    by auto
  have ms: "mset ys = mset xs"
    using ys(2) by (subst split) (simp add: ps_def)
  have "stably_sorted c xs ys" if cons: "consistent_comparator c ?S"
  proof -
    have sorted_ps: "sorted_wrt ?le ps"
    proof (cases descending)
      case True
      with run_R have "successively (\<lambda>a b. sort_order (c b a) < 0) run" by simp
      from descending_run_strict [OF cons sub(1) this]
      have "sorted_wrt (\<lambda>a b. sort_order (c a b) < 0) (rev run)" .
      then have "sorted_wrt ?le (rev run)"
        by (rule sorted_wrt_mono_rel [rotated]) simp
      with True show ?thesis by (simp add: ps_def)
    next
      case False
      with run_R have "successively (\<lambda>a b. 0 \<le> sort_order (c b a)) run" by simp
      from ascending_run_sorted [OF cons sub(1) this] False show ?thesis by (simp add: ps_def)
    qed
    have stable_ps: "filter (\<lambda>b. sort_order (c a b) = 0) ps =
        filter (\<lambda>b. sort_order (c a b) = 0) run" if "a \<in> ?S" for a
    proof (cases descending)
      case True
      with run_R have "successively (\<lambda>a b. sort_order (c b a) < 0) run" by simp
      from descending_run_stable [OF cons sub(1) that this] True show ?thesis
        by (simp add: ps_def)
    next
      case False
      then show ?thesis by (simp add: ps_def)
    qed
    from insert_rest_sorted [OF total cons sub(2,3) sorted_ps ys(1)]
    have res: "sorted_wrt ?le ys"
      "\<forall>a\<in>?S. filter (\<lambda>b. sort_order (c a b) = 0) ys =
              filter (\<lambda>b. sort_order (c a b) = 0) (ps @ drop n rest)"
      by auto
    have "filter (\<lambda>b. sort_order (c a b) = 0) ys = filter (\<lambda>b. sort_order (c a b) = 0) xs"
      if "a \<in> ?S" for a
      using res(2) stable_ps [OF that] that by (subst split) simp
    with res(1) show ?thesis by (simp add: stably_sorted_def)
  qed
  with unfold ys(1) ms show ?thesis by simp
qed
qed

lemma binary_insertion_engine_conforming: "conforming binary_insertion_engine"
proof -
  have "\<exists>ys. binary_insertion_sort cmp xs = Inr ys \<and> mset ys = mset xs \<and>
           (consistent_comparator c (set xs) \<longrightarrow> stably_sorted c xs ys)"
    if "\<forall>a\<in>set xs. \<forall>b\<in>set xs. cmp a b = Inr (c a b)" for cmp c xs
    using that by (intro binary_insertion_sort_conforms) (simp add: total_on_def)
  then show ?thesis
    by (simp add: conforming_def binary_insertion_engine_def compare_code_units_consistent)
qed

section \<open>The order of the sorted output\<close>

text \<open>
  A parsed salary is \<open>NaN\<close>, a finite number or \<open>Infinity\<close>, never \<open>-Infinity\<close>. On
  jobs whose parsed salary is a number the two salary comparators are consistent; the
  alphabetical comparator is consistent on all jobs, as \<open>localeCompare\<close> is on all strings.
\<close>

definition ordinary :: "jsnum \<Rightarrow> bool" where
  "ordinary x \<longleftrightarrow> x \<noteq> NaN \<and> x \<noteq> NegInf"

lemma round_magnitude_ordinary: "ordinary (round_magnitude n)"
proof (cases "n < 2 ^ 53")
  case True
  then show ?thesis by (simp add: round_magnitude_small ordinary_def)
next
  case False
  from round_magnitude_large [OF this] show ?thesis by (auto simp: ordinary_def)
qed

lemma parsedSalary_ordinary: "parsedSalary j \<noteq> NaN \<Longrightarrow> ordinary (parsedSalary j)"
  using round_magnitude_ordinary
  by (auto simp: parsedSalary_def parseInt_def Let_def ordinary_def split: option.splits if_splits)

lemma sort_order_js_sub:
  assumes "ordinary x" "ordinary y"
  shows "(sort_order (js_sub x y) < 0 \<longleftrightarrow> js_less x y) \<and>
         (sort_order (js_sub x y) = 0 \<longleftrightarrow> x = y) \<and>
         (0 < sort_order (js_sub x y) \<longleftrightarrow> js_less y x)"
  using assms
  by (cases x; cases y) (auto simp: ordinary_def sort_order_round_int sgn_if)

lemma js_less_trans: "js_less x y \<Longrightarrow> js_less y z \<Longrightarrow> js_less x z"
  by (cases x; cases y; cases z) auto

lemma js_le_less: "ordinary x \<Longrightarrow> ordinary y \<Longrightarrow> js_le x y \<longleftrightarrow> \<not> js_less y x"
  by (cases x; cases y) (auto simp: ordinary_def)

lemma salary_comparator_consistent:
  assumes "\<forall>j\<in>S. parsedSalary j \<noteq> NaN"
  shows "consistent_comparator order_low_high S" "consistent_comparator order_high_low S"
proof -
  have ord: "ordinary (parsedSalary j)" if "j \<in> S" for j
    using assms that by (simp add: parsedSalary_ordinary)
  show "consistent_comparator order_low_high S"
    unfolding consistent_comparator_def order_low_high_def
    by (intro conjI ballI impI; simp add: sort_order_js_sub ord) (blast intro: js_less_trans)+
  show "consistent_comparator order_high_low S"
    unfolding consistent_comparator_def order_high_low_def
    by (intro conjI ballI impI; simp add: sort_order_js_sub ord) (blast intro: js_less_trans)+
qed

lemma alphabetical_comparator_consistent:
  assumes "conforming eng"
  shows "consistent_comparator (order_alphabetical eng) S"
proof -
  have "consistent_comparator (\<lambda>s t. Num (engine_localeCompare eng s t)) UNIV"
    using assms unfolding conforming_def by (rule conjunct2)
  then show ?thesis
    unfolding consistent_comparator_def order_alphabetical_def
    by (intro conjI ballI impI) (simp, blast+)
qed


text \<open>
  With a consistent comparator the function returns the filtered jobs in order and
  stably, on every conforming engine.
\<close>

lemma sorted_output:
  assumes "conforming eng" "jobs < length h" "list_all well_typed (h ! jobs)"
    and sort: "\<And>st. apply_sort eng sortOption st = array_sort eng cmp st"
    and pure: "\<And>a b. well_typed a \<Longrightarrow> cmp a b = Inr (c a b)"
    and cons: "consistent_comparator c (set (filter (satisfies eng f q) (h ! jobs)))"
  shows "\<exists>out. returned (applyFiltersAndSort eng h jobs f q sortOption) = Inr out \<and>
           mset out = mset (filter (satisfies eng f q) (h ! jobs)) \<and>
           stably_sorted c (filter (satisfies eng f q) (h ! jobs)) out"
proof -
  from filtered_before_sort [OF assms(2,3), of implemented_order eng f q]
  obtain st1 where st1: "thenE (spread h jobs) (run_stages eng f q implemented_order) = Inr st1"
    "fresh_in h st1" "contents st1 = filter (satisfies eng f q) (h ! jobs)"
    by auto
  have "list_all well_typed (contents st1)"
    using assms(3) st1(3) by (simp add: list_all_filter)
  then have "\<forall>a\<in>set (contents st1). \<forall>b\<in>set (contents st1). cmp a b = Inr (c a b)"
    by (simp add: list_all_iff pure)
  from array_sort_conforming [OF assms(1) st1(2) this] cons st1(3)
  obtain st2 where "array_sort eng cmp st1 = Inr st2"
    "mset (contents st2) = mset (contents st1)" "stably_sorted c (contents st1) (contents st2)"
    by auto
  with st1 show ?thesis
    by (simp add: applyFiltersAndSort_stages thenE_def sort returned_def)
qed

lemma sgn_int_le_0: "sgn (n::int) \<le> 0 \<longleftrightarrow> n \<le> 0"
  by (simp add: sgn_if)

lemma sgn_int_eq_0: "sgn (n::int) = 0 \<longleftrightarrow> n = 0"
  by (simp add: sgn_if)

text \<open>
  The option \<open>alphabetical\<close>: the output is the filtered list in ascending order of
  title under \<open>localeCompare\<close>, and jobs whose titles compare equal keep their order.
\<close>

lemma alphabetical_output_sorted:
  assumes "conforming eng" "jobs < length h" "list_all well_typed (h ! jobs)"
  shows "\<exists>out. returned (applyFiltersAndSort eng h jobs f q ''alphabetical'') = Inr out \<and>
           mset out = mset (filter (satisfies eng f q) (h ! jobs)) \<and>
           sorted_wrt (\<lambda>a b. engine_localeCompare eng (title_text a) (title_text b) \<le> 0) out \<and>
           (\<forall>a\<in>set (filter (satisfies eng f q) (h ! jobs)).
              filter (\<lambda>b. engine_localeCompare eng (title_text a) (title_text b) = 0) out =
              filter (\<lambda>b. engine_localeCompare eng (title_text a) (title_text b) = 0)
                (filter (satisfies eng f q) (h ! jobs)))"
proof -
  have "\<exists>out. returned (applyFiltersAndSort eng h jobs f q ''alphabetical'') = Inr out \<and>
           mset out = mset (filter (satisfies eng f q) (h ! jobs)) \<and>
           stably_sorted (order_alphabetical eng) (filter (satisfies eng f q) (h ! jobs)) out"
    using assms
  proof (rule sorted_output)
    show "apply_sort eng ''alphabetical'' st =
            array_sort eng (cmp_alphabetical (engine_localeCompare eng)) st" for st
      by (simp add: apply_sort_def)
    show "well_typed a \<Longrightarrow>
            cmp_alphabetical (engine_localeCompare eng) a b = Inr (order_alphabetical eng a b)"
      for a b
      by (rule cmp_alphabetical_pure)
    show "consistent_comparator (order_alphabetical eng)
            (set (filter (satisfies eng f q) (h ! jobs)))"
      using assms(1) by (rule alphabetical_comparator_consistent)
  qed
  then show ?thesis
    by (simp add: stably_sorted_def order_alphabetical_def sgn_int_le_0 sgn_int_eq_0)
qed

lemma stable_per_key:
  assumes "mset ys = mset xs"
    and "\<forall>a\<in>set xs. filter (\<lambda>b. key b = key a) ys = filter (\<lambda>b. key b = key a) xs"
  shows "filter (\<lambda>b. key b = k) ys = filter (\<lambda>b. key b = k) xs"
proof (cases "\<exists>a\<in>set xs. key a = k")
  case True
  with assms(2) show ?thesis by auto
next
  case False
  moreover have "set ys = set xs" using assms(1) by (rule mset_eq_setD)
  ultimately have "filter (\<lambda>b. key b = k) ys = []" "filter (\<lambda>b. key b = k) xs = []"
    by (auto simp: filter_empty_conv)
  then show ?thesis by simp
qed

text \<open>
  The options \<open>salary-low-high\<close> and \<open>salary-high-low\<close>, when no salary of the input
  is a non-empty string without a digit: the output is in ascending, respectively
  descending, order of parsed salary, and jobs with the same parsed salary keep their
  order.
\<close>

lemma salary_low_high_output_sorted:
  assumes "conforming eng" "jobs < length h" "list_all well_typed (h ! jobs)"
    and "\<forall>j\<in>set (h ! jobs). parsedSalary j \<noteq> NaN"
  shows "\<exists>out. returned (applyFiltersAndSort eng h jobs f q ''salary-low-high'') = Inr out \<and>
           mset out = mset (filter (satisfies eng f q) (h ! jobs)) \<and>
           sorted_wrt (\<lambda>a b. js_le (parsedSalary a) (parsedSalary b)) out \<and>
           (\<forall>k. filter (\<lambda>b. parsedSalary b = k) out =
                filter (\<lambda>b. parsedSalary b = k) (filter (satisfies eng f q) (h ! jobs)))"
proof -
  let ?xs = "filter (satisfies eng f q) (h ! jobs)"
  have num: "\<forall>j\<in>set ?xs. parsedSalary j \<noteq> NaN" using assms(4) by simp
  have "\<exists>out. returned (applyFiltersAndSort eng h jobs f q ''salary-low-high'') = Inr out \<and>
           mset out = mset ?xs \<and> stably_sorted order_low_high ?xs out"
    using assms(1-3)
  proof (rule sorted_output)
    show "apply_sort eng ''salary-low-high'' st = array_sort eng cmp_low_high st" for st
      by (simp add: apply_sort_def)
    show "cmp_low_high a b = Inr (order_low_high a b)" for a b
      by (rule cmp_low_high_pure)
    show "consistent_comparator order_low_high (set ?xs)"
      using num by (rule salary_comparator_consistent)
  qed
  then obtain out where out: "returned (applyFiltersAndSort eng h jobs f q ''salary-low-high'') = Inr out"
    "mset out = mset ?xs" "stably_sorted order_low_high ?xs out"
    by auto
  have set_out: "set out = set ?xs" using out(2) by (rule mset_eq_setD)
  have ord: "ordinary (parsedSalary j)" if "j \<in> set ?xs" for j
    using num that by (simp add: parsedSalary_ordinary)
  have "sorted_wrt (\<lambda>a b. sort_order (order_low_high a b) \<le> 0) out"
    using out(3) by (simp add: stably_sorted_def)
  then have sorted: "sorted_wrt (\<lambda>a b. js_le (parsedSalary a) (parsedSalary b)) out"
  proof (rule sorted_wrt_mono_rel [rotated])
    fix a b assume "a \<in> set out" "b \<in> set out" "sort_order (order_low_high a b) \<le> 0"
    then show "js_le (parsedSalary a) (parsedSalary b)"
      using sort_order_js_sub [of "parsedSalary a" "parsedSalary b"] ord set_out
      by (auto simp: order_low_high_def js_le_less)
  qed
  have "\<forall>a\<in>set ?xs. filter (\<lambda>b. parsedSalary b = parsedSalary a) out =
          filter (\<lambda>b. parsedSalary b = parsedSalary a) ?xs"
  proof
    fix a assume a: "a \<in> set ?xs"
    have "filter (\<lambda>b. sort_order (order_low_high a b) = 0) out =
          filter (\<lambda>b. sort_order (order_low_high a b) = 0) ?xs"
      using out(3) a by (simp add: stably_sorted_def)
    moreover have "sort_order (order_low_high a b) = 0 \<longleftrightarrow> parsedSalary b = parsedSalary a"
      if "b \<in> set ?xs" for b
      using sort_order_js_sub [of "parsedSalary a" "parsedSalary b"] ord a that
      by (auto simp: order_low_high_def)
    ultimately show "filter (\<lambda>b. parsedSalary b = parsedSalary a) out =
          filter (\<lambda>b. parsedSalary b = parsedSalary a) ?xs"
      using set_out by (metis (mono_tags, lifting) filter_cong)
  qed
  with out(2) have "filter (\<lambda>b. parsedSalary b = k) out = filter (\<lambda>b. parsedSalary b = k) ?xs" for k
    by (rule stable_per_key)
  with out(1,2) sorted show ?thesis by blast
qed

lemma salary_high_low_output_sorted:
  assumes "conforming eng" "jobs < length h" "list_all well_typed (h ! jobs)"
    and "\<forall>j\<in>set (h ! jobs). parsedSalary j \<noteq> NaN"
  shows "\<exists>out. returned (applyFiltersAndSort eng h jobs f q ''salary-high-low'') = Inr out \<and>
           mset out = mset (filter (satisfies eng f q) (h ! jobs)) \<and>
           sorted_wrt (\<lambda>a b. js_le (parsedSalary b) (parsedSalary a)) out \<and>
           (\<forall>k. filter (\<lambda>b. parsedSalary b = k) out =
                filter (\<lambda>b. parsedSalary b = k) (filter (satisfies eng f q) (h ! jobs)))"
proof -
  let ?xs = "filter (satisfies eng f q) (h ! jobs)"
  have num: "\<forall>j\<in>set ?xs. parsedSalary j \<noteq> NaN" using assms(4) by simp
  have "\<exists>out. returned (applyFiltersAndSort eng h jobs f q ''salary-high-low'') = Inr out \<and>
           mset out = mset ?xs \<and> stably_sorted order_high_low ?xs out"
    using assms(1-3)
  proof (rule sorted_output)
    show "apply_sort eng ''salary-high-low'' st = array_sort eng cmp_high_low st" for st
      by (simp add: apply_sort_def)
    show "cmp_high_low a b = Inr (order_high_low a b)" for a b
      by (rule cmp_high_low_pure)
    show "consistent_comparator order_high_low (set ?xs)"
      using num by (rule salary_comparator_consistent)
  qed
  then obtain out where out: "returned (applyFiltersAndSort eng h jobs f q ''salary-high-low'') = Inr out"
    "mset out = mset ?xs" "stably_sorted order_high_low ?xs out"
    by auto
  have set_out: "set out = set ?xs" using out(2) by (rule mset_eq_setD)
  have ord: "ordinary (parsedSalary j)" if "j \<in> set ?xs" for j
    using num that by (simp add: parsedSalary_ordinary)
  have "sorted_wrt (\<lambda>a b. sort_order (order_high_low a b) \<le> 0) out"
    using out(3) by (simp add: stably_sorted_def)
  then have sorted: "sorted_wrt (\<lambda>a b. js_le (parsedSalary b) (parsedSalary a)) out"
  proof (rule sorted_wrt_mono_rel [rotated])
    fix a b assume "a \<in> set out" "b \<in> set out" "sort_order (order_high_low a b) \<le> 0"
    then show "js_le (parsedSalary b) (parsedSalary a)"
      using sort_order_js_sub [of "parsedSalary b" "parsedSalary a"] ord set_out
      by (auto simp: order_high_low_def js_le_less)
  qed
  have "\<forall>a\<in>set ?xs. filter (\<lambda>b. parsedSalary b = parsedSalary a) out =
          filter (\<lambda>b. parsedSalary b = parsedSalary a) ?xs"
  proof
    fix a assume a: "a \<in> set ?xs"
    have "filter (\<lambda>b. sort_order (order_high_low a b) = 0) out =
          filter (\<lambda>b. sort_order (order_high_low a b) = 0) ?xs"
      using out(3) a by (simp add: stably_sorted_def)
    moreover have "sort_order (order_high_low a b) = 0 \<longleftrightarrow> parsedSalary b = parsedSalary a"
      if "b \<in> set ?xs" for b
      using sort_order_js_sub [of "parsedSalary b" "parsedSalary a"] ord a that
      by (auto simp: order_high_low_def)
    ultimately show "filter (\<lambda>b. parsedSalary b = parsedSalary a) out =
          filter (\<lambda>b. parsedSalary b = parsedSalary a) ?xs"
      using set_out by (metis (mono_tags, lifting) filter_cong)
  qed
  with out(2) have "filter (\<lambda>b. parsedSalary b = k) out = filter (\<lambda>b. parsedSalary b = k) ?xs" for k
    by (rule stable_per_key)
  with out(1,2) sorted show ?thesis by blast
qed

section \<open>The predicates of the specification\<close>

text \<open>
  Section 4.1 of the specification words the six predicates over its own filter state:
  three sets of selected strings, the remote flag and the salary range.
  \<open>filter_state_of\<close> reads that state from the object the function is given: an array as
  the set of its elements, and a property that is missing as no constraint. The
  predicates below are written from the text of the specification and not from the
  callbacks of the source. \<open>lower\<close> is the lowercasing of strings, and \<open>sublist q s\<close>
  says that \<open>q\<close> occurs in \<open>s\<close> as a contiguous run.
\<close>

record filter_state =
  selected_companies :: "string set"
  selected_locations :: "string set"
  selected_departments :: "string set"
  remote_flag :: bool
  salary_bounds :: "int \<times> int"


text \<open>A property is present and, lowercased, contains the lowercased string \<open>q\<close>.\<close>

definition contains_folded :: "(string \<Rightarrow> string) \<Rightarrow> string \<Rightarrow> string option \<Rightarrow> bool" where
  "contains_folded lower q v =
     (case v of None \<Rightarrow> False | Some s \<Rightarrow> sublist (lower q) (lower s))"

text \<open>
  Search, only if the query is non-empty: the title, or the description, or the
  department if present, contains the lowercased query.
\<close>

definition spec_search :: "(string \<Rightarrow> string) \<Rightarrow> string \<Rightarrow> job \<Rightarrow> bool" where
  "spec_search lower q j \<longleftrightarrow>
     (q \<noteq> [] \<longrightarrow>
        contains_folded lower q (title j) \<or> contains_folded lower q (description j) \<or>
        contains_folded lower q (department j))"

text \<open>Company, only if the set is non-empty: the company name is a member of the set.\<close>

definition spec_company :: "filter_state \<Rightarrow> job \<Rightarrow> bool" where
  "spec_company fs j \<longleftrightarrow>
     (selected_companies fs \<noteq> {} \<longrightarrow>
        (case companyName j of None \<Rightarrow> False | Some c \<Rightarrow> c \<in> selected_companies fs))"

text \<open>
  Location, only if the set is non-empty: some selected location, lowercased, is a
  substring of the lowercased location of the job.
\<close>

definition spec_location :: "(string \<Rightarrow> string) \<Rightarrow> filter_state \<Rightarrow> job \<Rightarrow> bool" where
  "spec_location lower fs j \<longleftrightarrow>
     (selected_locations fs \<noteq> {} \<longrightarrow>
        (\<exists>l\<in>selected_locations fs. contains_folded lower l (location j)))"

text \<open>
  Department, only if the set is non-empty: the department is present and is a member of
  the set.
\<close>

definition spec_department :: "filter_state \<Rightarrow> job \<Rightarrow> bool" where
  "spec_department fs j \<longleftrightarrow>
     (selected_departments fs \<noteq> {} \<longrightarrow>
        (case department j of None \<Rightarrow> False | Some d \<Rightarrow> d \<in> selected_departments fs))"

text \<open>Remote, only if the flag is set: the job is remote.\<close>

definition spec_remote :: "filter_state \<Rightarrow> job \<Rightarrow> bool" where
  "spec_remote fs j \<longleftrightarrow> (remote_flag fs \<longrightarrow> remote j)"

text \<open>
  The salary of a job as an integer (section 3): every character that is not a digit is
  stripped and the remaining digit run is parsed; a salary that is absent or unparsable
  is \<open>0\<close>.
\<close>

definition spec_parsed_salary :: "job \<Rightarrow> int" where
  "spec_parsed_salary j =
     (case salary j of
        None \<Rightarrow> 0
      | Some s \<Rightarrow>
          if filter is_digit s = [] then 0 else digit_run_value (filter is_digit s))"

text \<open>
  Salary range, only if the range differs from the default \<open>[0, 500000]\<close>: the parsed
  salary is within the bounds.
\<close>

definition spec_salary :: "filter_state \<Rightarrow> job \<Rightarrow> bool" where
  "spec_salary fs j \<longleftrightarrow>
     (salary_bounds fs \<noteq> (0, 500000) \<longrightarrow>
        fst (salary_bounds fs) \<le> spec_parsed_salary j \<and>
        spec_parsed_salary j \<le> snd (salary_bounds fs))"

definition spec_satisfies ::
    "(string \<Rightarrow> string) \<Rightarrow> filter_state \<Rightarrow> string \<Rightarrow> job \<Rightarrow> bool" where
  "spec_satisfies lower fs q j \<longleftrightarrow>
     spec_search lower q j \<and> spec_company fs j \<and> spec_location lower fs j \<and>
     spec_department fs j \<and> spec_remote fs j \<and> spec_salary fs j"

subsection \<open>Where the source reads a predicate differently\<close>

text \<open>
  The source is written to read three of these conditions in its own way. The guard of
  the salary block (line 139) tests for a narrowing of the range, \<open>min > 0\<close> or
  \<open>max < 500000\<close>, and not for a difference from the default. The salary it compares is
  a number of the language, the double nearest to the parsed integer, which is that
  integer below \<open>2^53\<close>. And \<open>job.department &&\<close> (line 130) takes a department that
  is the empty string for one that is missing. \<open>amended_department\<close> and
  \<open>amended_salary\<close> are the two predicates read so.
\<close>

definition narrowed :: "filter_state \<Rightarrow> bool" where
  "narrowed fs \<longleftrightarrow> 0 < fst (salary_bounds fs) \<or> snd (salary_bounds fs) < 500000"

definition amended_department :: "filter_state \<Rightarrow> job \<Rightarrow> bool" where
  "amended_department fs j \<longleftrightarrow>
     (selected_departments fs \<noteq> {} \<longrightarrow>
        (case department j of
           None \<Rightarrow> False
         | Some d \<Rightarrow> d \<noteq> [] \<and> d \<in> selected_departments fs))"

definition amended_salary :: "filter_state \<Rightarrow> job \<Rightarrow> bool" where
  "amended_salary fs j \<longleftrightarrow>
     (narrowed fs \<longrightarrow>
        js_le (Num (fst (salary_bounds fs))) (round_magnitude (spec_parsed_salary j)) \<and>
        js_le (round_magnitude (spec_parsed_salary j)) (Num (snd (salary_bounds fs))))"

definition amended_satisfies ::
    "(string \<Rightarrow> string) \<Rightarrow> filter_state \<Rightarrow> string \<Rightarrow> job \<Rightarrow> bool" where
  "amended_satisfies lower fs q j \<longleftrightarrow>
     spec_search lower q j \<and> spec_company fs j \<and> spec_location lower fs j \<and>
     amended_department fs j \<and> spec_remote fs j \<and> amended_salary fs j"



text \<open>
  The two readings give the same predicate for a range that is the default or narrowed, a
  department that is not the empty string and a salary below \<open>2^53\<close>.
\<close>

lemma amended_satisfies_spec:
  assumes "salary_bounds fs = (0, 500000) \<or> narrowed fs" "department j \<noteq> Some []"
    and "spec_parsed_salary j < 2 ^ 53"
  shows "amended_satisfies lower fs q j \<longleftrightarrow> spec_satisfies lower fs q j"
proof -
  have "amended_department fs j \<longleftrightarrow> spec_department fs j"
    using assms(2) by (auto simp: amended_department_def spec_department_def split: option.splits)
  moreover have "amended_salary fs j \<longleftrightarrow> spec_salary fs j"
    using assms(1,3)
    by (auto simp: amended_salary_def spec_salary_def narrowed_def round_magnitude_small)
  ultimately show ?thesis
    by (simp add: amended_satisfies_def spec_satisfies_def)
qed

subsection \<open>The callbacks compute the predicates\<close>












section \<open>Example jobs and filter states\<close>

text \<open>
  The two jobs of the scenario in the specification, and variants of the second one whose
  salary has no digit, is missing, or is the empty string.
\<close>

definition engineer :: job where
  "engineer = \<lparr>title = Some ''Engineer'', description = Some ''Builds the product'',
     department = Some ''Engineering'', companyName = Some ''A'', location = Some ''NY'',
     remote = False, salary = Some ''$100,000''\<rparr>"

definition analyst :: job where
  "analyst = \<lparr>title = Some ''Analyst'', description = Some ''Reads the numbers'',
     department = None, companyName = Some ''B'', location = Some ''SF'',
     remote = True, salary = Some ''$80,000''\<rparr>"

definition negotiable :: job where
  "negotiable = analyst\<lparr>title := Some ''Designer'', salary := Some ''Negotiable''\<rparr>"

definition unpaid :: job where
  "unpaid = analyst\<lparr>title := Some ''Intern'', salary := None\<rparr>"

definition blank :: job where
  "blank = analyst\<lparr>title := Some ''Writer'', salary := Some []\<rparr>"

definition remote_only :: filters where
  "remote_only = default_filters\<lparr>remoteOnly := True\<rparr>"

definition up_to_400000 :: filters where
  "up_to_400000 = default_filters\<lparr>salaryRange := Some (0, 400000)\<rparr>"

text \<open>A job paid more than the default upper bound, and a range wider than the default.\<close>

definition executive :: job where
  "executive = engineer\<lparr>title := Some ''Executive'', salary := Some ''$700,000''\<rparr>"

definition up_to_600000 :: filters where
  "up_to_600000 = default_filters\<lparr>salaryRange := Some (0, 600000)\<rparr>"






lemma well_typed_examples:
  "well_typed engineer" "well_typed analyst" "well_typed negotiable" "well_typed unpaid"
  "well_typed blank"
  by (simp_all add: well_typed_def engineer_def analyst_def negotiable_def unpaid_def blank_def)

section \<open>The claims\<close>

text \<open>
  In the theorems below \<open>h\<close> is the store before the call and \<open>jobs\<close> the address of
  the input array in it; \<open>returned\<close> reads the array the call returns.
\<close>




text \<open>
  Claim C4. With the default filter state, the empty query and no sort option the call
  returns an array with the elements of the input in the same order.
\<close>

theorem default_state_is_identity:
  "jobs < length h \<Longrightarrow>
     returned (applyFiltersAndSort eng h jobs default_filters [] []) = Inr (h ! jobs)"
  by (simp add: applyFiltersAndSort_def spread_def thenE_def apply_search_def apply_company_def
      apply_location_def apply_department_def apply_remote_def apply_salary_def apply_sort_def
      default_filters_def returned_def contents_alloc)

theorem default_state_is_identity_witness:
  "(0::nat) < length [[engineer, analyst]] \<and>
   returned (applyFiltersAndSort reference_engine [[engineer, analyst]] 0 default_filters [] [])
     = Inr [engineer, analyst]"
  using default_state_is_identity [of 0 "[[engineer, analyst]]" reference_engine] by simp

text \<open>
  A job outside the documented shape can make the call throw: a missing \<open>description\<close>
  does, once a search is active and the title does not match.
\<close>

lemma missing_description_throws:
  "applyFiltersAndSort reference_engine [[analyst\<lparr>description := None\<rparr>]] 0 default_filters
     ''engineer'' [] = Inl TypeError"
  by code_simp

text \<open>
  Claim C7. On an array of well-typed jobs and a conforming engine the call does not
  throw, whatever the filter state, the query and the sort option; the salary strings are
  arbitrary, so a salary without a digit is covered. On the empty array it returns the
  empty array.
\<close>

theorem never_throws_on_well_typed_input:
  assumes "conforming eng" "jobs < length h" "list_all well_typed (h ! jobs)"
  shows "(\<exists>out. returned (applyFiltersAndSort eng h jobs f searchQuery sortOption) = Inr out) \<and>
         (h ! jobs = [] \<longrightarrow>
            returned (applyFiltersAndSort eng h jobs f searchQuery sortOption) = Inr [])"
proof -
  from applyFiltersAndSort_returns [OF assms, of f searchQuery sortOption]
  obtain st where st: "applyFiltersAndSort eng h jobs f searchQuery sortOption = Inr st"
    "mset (contents st) = mset (filter (satisfies eng f searchQuery) (h ! jobs))"
    by auto
  then show ?thesis
    by (auto simp: returned_def)
qed

theorem never_throws_on_well_typed_input_witness:
  "conforming reference_engine \<and> (0::nat) < length [[negotiable, engineer], []] \<and>
   list_all well_typed ([[negotiable, engineer], []] ! 0) \<and>
   (\<exists>out. returned (applyFiltersAndSort reference_engine [[negotiable, engineer], []] 0
        up_to_400000 ''e'' ''salary-low-high'') = Inr out) \<and>
   (1::nat) < length [[negotiable, engineer], []] \<and>
   list_all well_typed ([[negotiable, engineer], []] ! 1) \<and>
   returned (applyFiltersAndSort reference_engine [[negotiable, engineer], []] 1
        up_to_400000 ''e'' ''salary-low-high'') = Inr []"
proof -
  have a1: "(0::nat) < length [[negotiable, engineer], []]" by simp
  have a2: "list_all well_typed ([[negotiable, engineer], []] ! 0)"
    by (simp add: well_typed_examples)
  have b1: "(1::nat) < length [[negotiable, engineer], []]" by simp
  have b2: "list_all well_typed ([[negotiable, engineer], []] ! 1)" by simp
  have b3: "[[negotiable, engineer], []] ! 1 = []" by simp
  from never_throws_on_well_typed_input [OF reference_engine_conforming a1 a2]
    never_throws_on_well_typed_input [OF reference_engine_conforming b1 b2] a1 a2 b1 b2 b3
    reference_engine_conforming
  show ?thesis by blast
qed


text \<open>
  Whatever the engine and the jobs, a block that returns leaves the variable on an array
  allocated during the call, and the arrays of the store before the call untouched.
\<close>

lemma array_filter_fresh:
  "array_filter cb st = Inr st' \<Longrightarrow> fresh_in h0 st \<Longrightarrow> fresh_in h0 st'"
  by (auto simp: array_filter_def fresh_in_alloc split: sum.splits)

lemma array_sort_fresh:
  "array_sort eng cmp st = Inr st' \<Longrightarrow> fresh_in h0 st \<Longrightarrow> fresh_in h0 st'"
  by (auto simp: array_sort_def fresh_in_update split: sum.splits)

lemma run_stage_fresh:
  "run_stage eng f q s st = Inr st' \<Longrightarrow> fresh_in h0 st \<Longrightarrow> fresh_in h0 st'"
  by (cases s)
    (auto simp: apply_search_def apply_company_def apply_location_def apply_department_def
      apply_remote_def apply_salary_def
      split: if_splits option.splits prod.splits dest: array_filter_fresh)

lemma run_stages_fresh:
  "run_stages eng f q order st = Inr st' \<Longrightarrow> fresh_in h0 st \<Longrightarrow> fresh_in h0 st'"
proof (induction order arbitrary: st' rule: rev_induct)
  case Nil
  then show ?case by (simp add: run_stages_def)
next
  case (snoc s order)
  from snoc.prems(1) obtain st1 where "run_stages eng f q order st = Inr st1"
    "run_stage eng f q s st1 = Inr st'"
    by (auto simp: run_stages_snoc thenE_def split: sum.splits)
  with snoc.IH snoc.prems(2) show ?case
    by (blast intro: run_stage_fresh)
qed

lemma apply_sort_fresh:
  "apply_sort eng sortOption st = Inr st' \<Longrightarrow> fresh_in h0 st \<Longrightarrow> fresh_in h0 st'"
  by (auto simp: apply_sort_def split: if_splits dest: array_sort_fresh)

lemma applyFiltersAndSort_fresh:
  assumes "applyFiltersAndSort eng h jobs f q sortOption = Inr st"
  shows "jobs < length h \<and> fresh_in h st"
proof -
  from assms obtain s0 s1 where steps: "spread h jobs = Inr s0"
    "run_stages eng f q implemented_order s0 = Inr s1" "apply_sort eng sortOption s1 = Inr st"
    by (auto simp: applyFiltersAndSort_stages thenE_def split: sum.splits)
  from steps(1) have "jobs < length h" "fresh_in h s0"
    by (auto simp: spread_def fresh_in_spread split: if_splits)
  with steps(2,3) show ?thesis
    by (blast intro: run_stages_fresh apply_sort_fresh)
qed

text \<open>
  Claim C8. After a call that returns, every array that was in the store before the call
  holds the same jobs in the same order, the input array among them, and the array
  returned is a new one: the function filters and sorts a copy. No statement of the
  function assigns to a property of a job.
\<close>

theorem input_array_not_mutated:
  assumes "applyFiltersAndSort eng h jobs f searchQuery sortOption = Inr (r, h')"
  shows "take (length h) h' = h \<and> h' ! jobs = h ! jobs \<and> length h \<le> r \<and> r < length h'"
proof -
  from applyFiltersAndSort_fresh [OF assms] have lt: "jobs < length h"
    and fresh: "take (length h) h' = h" "length h \<le> r" "r < length h'"
    by (simp_all add: fresh_in_def)
  have "h' ! jobs = take (length h) h' ! jobs"
    using lt by simp
  with fresh show ?thesis by simp
qed

theorem input_array_not_mutated_witness:
  "applyFiltersAndSort reference_engine [[engineer, analyst]] 0 default_filters []
      ''alphabetical'' = Inr (1, [[engineer, analyst], [analyst, engineer]]) \<and>
   take (length [[engineer, analyst]]) [[engineer, analyst], [analyst, engineer]]
      = [[engineer, analyst]] \<and>
   [[engineer, analyst], [analyst, engineer]] ! 0 = [[engineer, analyst]] ! 0 \<and>
   length [[engineer, analyst]] \<le> (1::nat) \<and>
   (1::nat) < length [[engineer, analyst], [analyst, engineer]]"
proof -
  have ev: "applyFiltersAndSort reference_engine [[engineer, analyst]] 0 default_filters []
      ''alphabetical'' = Inr (1, [[engineer, analyst], [analyst, engineer]])"
    by code_simp
  from input_array_not_mutated [OF ev] ev show ?thesis by blast
qed

text \<open>
  Claim C9. On an array of well-typed jobs, running the six filter blocks in any order
  gives the same sequence as the function gives before it sorts: the input jobs that
  satisfy every active block, in the order of the input.
\<close>

theorem filters_commute:
  assumes "jobs < length h" "list_all well_typed (h ! jobs)"
    and "mset order = mset implemented_order"
  shows "returned (thenE (spread h jobs) (run_stages eng f searchQuery order)) =
           Inr (filter (satisfies eng f searchQuery) (h ! jobs)) \<and>
         returned (applyFiltersAndSort eng h jobs f searchQuery []) =
           Inr (filter (satisfies eng f searchQuery) (h ! jobs))"
proof -
  from assms(3) have "set order = set implemented_order"
    by (rule mset_eq_setD)
  from filtered_before_sort [OF assms(1,2) this, of eng f searchQuery]
  have "returned (thenE (spread h jobs) (run_stages eng f searchQuery order)) =
           Inr (filter (satisfies eng f searchQuery) (h ! jobs))"
    by (auto simp: returned_def)
  then show ?thesis
    using applyFiltersAndSort_unsorted [OF assms(1,2)] by simp
qed

theorem filters_commute_witness:
  "(0::nat) < length [[engineer, analyst, negotiable]] \<and>
   list_all well_typed ([[engineer, analyst, negotiable]] ! 0) \<and>
   mset [Salary, Remote, Department, Location, Company, Search] = mset implemented_order \<and>
   returned (thenE (spread [[engineer, analyst, negotiable]] 0)
     (run_stages reference_engine (remote_only\<lparr>salaryRange := Some (0, 400000)\<rparr>) ''a''
        [Salary, Remote, Department, Location, Company, Search])) = Inr [analyst] \<and>
   returned (applyFiltersAndSort reference_engine [[engineer, analyst, negotiable]] 0
     (remote_only\<lparr>salaryRange := Some (0, 400000)\<rparr>) ''a'' []) = Inr [analyst]"
proof -
  have h1: "(0::nat) < length [[engineer, analyst, negotiable]]" by simp
  have h2: "list_all well_typed ([[engineer, analyst, negotiable]] ! 0)"
    by (simp add: well_typed_examples)
  have h3: "mset [Salary, Remote, Department, Location, Company, Search] = mset implemented_order"
    by (simp add: implemented_order_def)
  have ev: "filter (satisfies reference_engine (remote_only\<lparr>salaryRange := Some (0, 400000)\<rparr>) ''a'')
      ([[engineer, analyst, negotiable]] ! 0) = [analyst]"
    by code_simp
  from filters_commute [OF h1 h2 h3, of reference_engine
      "remote_only\<lparr>salaryRange := Some (0, 400000)\<rparr>" "''a''"] ev h1 h2 h3
  show ?thesis by simp
qed

text \<open>The number parsed from a salary that is a non-empty string without a digit.\<close>

lemma parsedSalary_digit_free:
  "salary j = Some s \<Longrightarrow> s \<noteq> [] \<Longrightarrow> strip_non_digits s = [] \<Longrightarrow> parsedSalary j = NaN"
  by (simp add: parsedSalary_def truthy_def parseInt_def)

text \<open>
  Claim C10, as amended. When the salary block is active and the salary of a job is a
  non-empty string without a digit, the job is not returned, whatever the bounds of the
  range.
\<close>

theorem digit_free_salary_excluded:
  assumes "conforming eng" "jobs < length h" "list_all well_typed (h ! jobs)"
    and "salaryRange f = Some (minSalary, maxSalary)" "0 < minSalary \<or> maxSalary < 500000"
    and "salary j = Some s" "s \<noteq> []" "strip_non_digits s = []"
  shows "\<exists>out. returned (applyFiltersAndSort eng h jobs f searchQuery sortOption) = Inr out \<and>
           j \<notin> set out"
proof -
  from applyFiltersAndSort_returns [OF assms(1-3), of f searchQuery sortOption]
  obtain st where st: "applyFiltersAndSort eng h jobs f searchQuery sortOption = Inr st"
    "mset (contents st) = mset (filter (satisfies eng f searchQuery) (h ! jobs))"
    by auto
  from st(2) have "set (contents st) = set (filter (satisfies eng f searchQuery) (h ! jobs))"
    by (rule mset_eq_setD)
  moreover have "\<not> salary_ok f j"
    using assms(4,5) parsedSalary_digit_free [OF assms(6-8)]
    by (auto simp: salary_ok_def salary_cb_def)
  ultimately show ?thesis
    using st(1) by (auto simp: returned_def satisfies_def)
qed

theorem digit_free_salary_excluded_witness:
  "conforming reference_engine \<and> (0::nat) < length [[negotiable, analyst]] \<and>
   list_all well_typed ([[negotiable, analyst]] ! 0) \<and>
   salaryRange up_to_400000 = Some (0, 400000) \<and> ((0::int) < 0 \<or> (400000::int) < 500000) \<and>
   salary negotiable = Some ''Negotiable'' \<and> ''Negotiable'' \<noteq> [] \<and>
   strip_non_digits ''Negotiable'' = [] \<and>
   (\<exists>out. returned (applyFiltersAndSort reference_engine [[negotiable, analyst]] 0
        up_to_400000 [] []) = Inr out \<and> negotiable \<notin> set out)"
proof -
  have h1: "(0::nat) < length [[negotiable, analyst]]" by simp
  have h2: "list_all well_typed ([[negotiable, analyst]] ! 0)"
    by (simp add: well_typed_examples)
  have h3: "salaryRange up_to_400000 = Some (0, 400000)"
    by (simp add: up_to_400000_def)
  have h4: "(0::int) < 0 \<or> (400000::int) < 500000" by simp
  have h5: "salary negotiable = Some ''Negotiable''" by (simp add: negotiable_def)
  have h6: "''Negotiable'' \<noteq> []" by simp
  have h7: "strip_non_digits ''Negotiable'' = []" by code_simp
  from digit_free_salary_excluded [OF reference_engine_conforming h1 h2 h3 h4 h5 h6 h7]
    reference_engine_conforming h1 h2 h3 h4 h5 h6 h7
  show ?thesis by blast
qed

text \<open>
  Claim C10 as stated also covers the salary that is present and is the empty string. That
  string is falsy, the conditional takes the branch \<open>0\<close>, and the job is kept by a
  range that starts at \<open>0\<close>.
\<close>

theorem empty_salary_is_kept:
  "salary blank = Some [] \<and> strip_non_digits [] = [] \<and>
   salaryRange up_to_400000 = Some (0, 400000) \<and>
   returned (applyFiltersAndSort reference_engine [[blank]] 0 up_to_400000 [] []) = Inr [blank]"
  by code_simp

text \<open>The salary block, for a range that is present.\<close>

lemma salary_ok_range:
  assumes "salaryRange f = Some (minSalary, maxSalary)"
  shows "salary_ok f j \<longleftrightarrow>
           (0 < minSalary \<or> maxSalary < 500000 \<longrightarrow>
              js_le (Num minSalary) (parsedSalary j) \<and> js_le (parsedSalary j) (Num maxSalary))"
  using assms by (auto simp: salary_ok_def salary_cb_def)

lemma parsedSalary_negotiable: "parsedSalary negotiable = NaN"
  by code_simp

text \<open>
  Claim C5, as amended. The salary block constrains nothing exactly when the range is at
  least as wide as the default: \<open>min \<le> 0\<close> and \<open>max \<ge> 500000\<close>. It is active
  when \<open>min > 0\<close> or \<open>max < 500000\<close>, and then a job is returned only if
  \<open>min <= parsedSalary\<close> and \<open>parsedSalary <= max\<close>.
\<close>

theorem salary_range_active_when_narrowed:
  assumes "conforming eng" "jobs < length h" "list_all well_typed (h ! jobs)"
    and "salaryRange f = Some (minSalary, maxSalary)"
  shows "(\<exists>out. returned (applyFiltersAndSort eng h jobs f searchQuery sortOption) = Inr out \<and>
            (\<forall>j. j \<in> set out \<longleftrightarrow>
               j \<in> set (h ! jobs) \<and> search_ok eng searchQuery j \<and> company_ok f j \<and>
               location_ok eng f j \<and> department_ok f j \<and> remote_ok f j \<and>
               (0 < minSalary \<or> maxSalary < 500000 \<longrightarrow>
                  js_le (Num minSalary) (parsedSalary j) \<and>
                  js_le (parsedSalary j) (Num maxSalary)))) \<and>
         ((\<forall>j. salary_ok f j) \<longleftrightarrow> minSalary \<le> 0 \<and> 500000 \<le> maxSalary)"
proof
  from applyFiltersAndSort_returns [OF assms(1-3), of f searchQuery sortOption]
  obtain st where st: "applyFiltersAndSort eng h jobs f searchQuery sortOption = Inr st"
    "mset (contents st) = mset (filter (satisfies eng f searchQuery) (h ! jobs))"
    by auto
  from st(2) have "set (contents st) = set (filter (satisfies eng f searchQuery) (h ! jobs))"
    by (rule mset_eq_setD)
  with st(1) show "\<exists>out. returned (applyFiltersAndSort eng h jobs f searchQuery sortOption) = Inr out \<and>
            (\<forall>j. j \<in> set out \<longleftrightarrow>
               j \<in> set (h ! jobs) \<and> search_ok eng searchQuery j \<and> company_ok f j \<and>
               location_ok eng f j \<and> department_ok f j \<and> remote_ok f j \<and>
               (0 < minSalary \<or> maxSalary < 500000 \<longrightarrow>
                  js_le (Num minSalary) (parsedSalary j) \<and>
                  js_le (parsedSalary j) (Num maxSalary)))"
    by (auto simp: returned_def satisfies_def salary_ok_range [OF assms(4)])
next
  show "(\<forall>j. salary_ok f j) \<longleftrightarrow> minSalary \<le> 0 \<and> 500000 \<le> maxSalary"
  proof
    assume all: "\<forall>j. salary_ok f j"
    then have "salary_ok f negotiable" by simp
    then show "minSalary \<le> 0 \<and> 500000 \<le> maxSalary"
      by (auto simp: salary_ok_range [OF assms(4)] parsedSalary_negotiable)
  next
    assume "minSalary \<le> 0 \<and> 500000 \<le> maxSalary"
    then show "\<forall>j. salary_ok f j"
      by (auto simp: salary_ok_range [OF assms(4)])
  qed
qed

theorem salary_range_active_when_narrowed_witness:
  "conforming reference_engine \<and> (0::nat) < length [[engineer, analyst, executive]] \<and>
   list_all well_typed ([[engineer, analyst, executive]] ! 0) \<and>
   salaryRange up_to_600000 = Some (0, 600000) \<and>
   returned (applyFiltersAndSort reference_engine [[engineer, analyst, executive]] 0
      up_to_600000 [] []) = Inr [engineer, analyst, executive] \<and>
   (\<exists>out. returned (applyFiltersAndSort reference_engine [[engineer, analyst, executive]] 0
        up_to_600000 [] []) = Inr out \<and> executive \<in> set out) \<and>
   (\<forall>j. salary_ok up_to_600000 j)"
proof -
  have h1: "(0::nat) < length [[engineer, analyst, executive]]" by simp
  have "well_typed executive"
    by (simp add: well_typed_def executive_def engineer_def)
  then have h2: "list_all well_typed ([[engineer, analyst, executive]] ! 0)"
    by (simp add: well_typed_examples)
  have h3: "salaryRange up_to_600000 = Some (0, 600000)"
    by (simp add: up_to_600000_def)
  have ev: "returned (applyFiltersAndSort reference_engine [[engineer, analyst, executive]] 0
      up_to_600000 [] []) = Inr [engineer, analyst, executive]"
    by code_simp
  from salary_range_active_when_narrowed [OF reference_engine_conforming h1 h2 h3, of "[]" "[]"]
  have "\<forall>j. salary_ok up_to_600000 j" by simp
  with ev h1 h2 h3 reference_engine_conforming show ?thesis by simp
qed

text \<open>
  Claim C5 as stated makes every range other than \<open>[0, 500000]\<close> active. The range
  \<open>[0, 600000]\<close> is another range, and the guard of the source skips the block for it: a
  job paid 700000 is returned.
\<close>

theorem wider_range_is_not_applied:
  "salaryRange up_to_600000 = Some (0, 600000) \<and>
   salaryRange up_to_600000 \<noteq> salaryRange default_filters \<and>
   parsedSalary executive = Num 700000 \<and>
   \<not> js_le (parsedSalary executive) (Num 600000) \<and>
   returned (applyFiltersAndSort reference_engine [[executive]] 0 up_to_600000 [] [])
     = Inr [executive]"
  by code_simp

text \<open>
  Claim C3 at a salary without a digit. The source gives \<open>0\<close> to a missing salary, and
  \<open>parseInt\<close> of the empty digit run, which is \<open>NaN\<close>, to the salary \<^verbatim>\<open>Negotiable\<close>:
  a range from \<open>0\<close> to \<open>400000\<close> keeps the job without a salary and drops the
  negotiable one.
\<close>

theorem digit_free_salary_is_not_zero:
  "parsedSalary negotiable = NaN \<and> parsedSalary unpaid = Num 0 \<and>
   returned (applyFiltersAndSort reference_engine [[negotiable, unpaid]] 0 up_to_400000 [] [])
     = Inr [unpaid]"
  by code_simp

text \<open>
  Claim C2 at a salary without a digit. Its key is \<open>NaN\<close>, the comparator returns
  \<open>NaN\<close> for every pair it is in, and \<open>sort\<close> reads that as "equal": the job compares
  equal to both its neighbours, which are not equal. Insertion sort and binary insertion
  sort leave the three jobs as they are, in both salary orders: 100000 before 80000 when
  ascending, 80000 before 100000 when descending.
\<close>

theorem digit_free_salary_breaks_salary_order:
  "parsedSalary engineer = Num 100000 \<and> parsedSalary negotiable = NaN \<and>
   parsedSalary analyst = Num 80000 \<and>
   cmp_low_high engineer negotiable = Inr NaN \<and> cmp_low_high negotiable analyst = Inr NaN \<and>
   cmp_low_high engineer analyst = Inr (Num 20000) \<and>
   returned (applyFiltersAndSort reference_engine [[engineer, negotiable, analyst]] 0
      default_filters [] ''salary-low-high'') = Inr [engineer, negotiable, analyst] \<and>
   returned (applyFiltersAndSort reference_engine [[analyst, negotiable, engineer]] 0
      default_filters [] ''salary-high-low'') = Inr [analyst, negotiable, engineer] \<and>
   returned (applyFiltersAndSort binary_insertion_engine [[engineer, negotiable, analyst]] 0
      default_filters [] ''salary-low-high'') = Inr [engineer, negotiable, analyst] \<and>
   returned (applyFiltersAndSort binary_insertion_engine [[analyst, negotiable, engineer]] 0
      default_filters [] ''salary-high-low'') = Inr [analyst, negotiable, engineer]"
  by code_simp

text \<open>Eight jobs, one of them with a salary without a digit, two with the salary
  20000.\<close>

definition salaried :: "string \<Rightarrow> string \<Rightarrow> job" where
  "salaried t s = analyst\<lparr>title := Some t, salary := Some s\<rparr>"

definition eight_jobs :: "job list" where
  "eight_jobs =
     [salaried ''One'' ''$10,000'', salaried ''Three'' ''$30,000'', salaried ''Five'' ''$50,000'',
      salaried ''Nine'' ''$90,000'', salaried ''Open'' ''Negotiable'',
      salaried ''Two a'' ''$20,000'', salaried ''Seven'' ''$70,000'',
      salaried ''Two b'' ''$20,000'']"

text \<open>
  Claim C6 at a list with a salary without a digit. The comparator of \<open>salary-low-high\<close>
  returns \<open>NaN\<close> for every pair with the job \<^verbatim>\<open>Open\<close>, so it is not consistent on the
  list and the order is the engine's own. The binary insertion engine, which conforms
  (\<open>binary_insertion_engine_conforming\<close>), takes the first seven jobs for a run in order
  and inserts \<^verbatim>\<open>Two b\<close> by binary search in front of \<^verbatim>\<open>Three\<close>: the two jobs with
  the salary 20000 change places.
\<close>

theorem equal_salaries_swap_beside_digit_free_salary:
  "parsedSalary (salaried ''Two a'' ''$20,000'') = Num 20000 \<and>
   parsedSalary (salaried ''Two b'' ''$20,000'') = Num 20000 \<and>
   parsedSalary (salaried ''Open'' ''Negotiable'') = NaN \<and>
   returned (applyFiltersAndSort binary_insertion_engine [eight_jobs] 0 default_filters []
      ''salary-low-high'') =
     Inr [salaried ''One'' ''$10,000'', salaried ''Two b'' ''$20,000'',
          salaried ''Three'' ''$30,000'', salaried ''Five'' ''$50,000'',
          salaried ''Nine'' ''$90,000'', salaried ''Open'' ''Negotiable'',
          salaried ''Two a'' ''$20,000'', salaried ''Seven'' ''$70,000'']"
  by code_simp

end
